theory Spec2Isabelle
  imports Complex_Main
begin

section \<open>Data model (frontend/src/types/index.ts)\<close>

text \<open>
  Identifiers are JavaScript numbers holding database keys; they are modelled as \<open>int\<close>.
  React Flow node ids are the decimal print of a task id (\<open>task.task_id.toString()\<close>),
  and printing is injective, so a node id is modelled by the task id it prints.

  A date-valued field is typed \<open>string\<close> in the source. It is filled by
  \<open>input type="date"\<close> controls and by the backend, in one ISO format, and it is
  always read through \<open>new Date(...)\<close>. The model keeps the time value (milliseconds
  since the epoch) the string denotes; an absent or empty string, which the source tests with
  \<open>!field\<close>, is \<open>None\<close>.

  Ratios and efforts are JavaScript numbers; the model computes with exact rationals.
\<close>

datatype dependency_type = FS | SS | FF | SF

record TaskDependency =
  dep_task_id :: int
  depends_on_id :: int
  dependency_type :: dependency_type

record Employee =
  employee_id :: int
  employee_name :: string

record Task =
  task_id :: int
  project_id :: int
  task_name :: string
  description :: "nat list option"
  estimated_duration :: "rat option"
  start_date :: "int option"
  end_date :: "int option"
  earliest_start :: "int option"
  deadline :: "int option"
  status_code :: "string option"
  milestone_flag :: "bool option"
  assignee :: "Employee option"

record WBSTask = Task +
  checklist_progress :: rat
  dependencies :: "TaskDependency list"

text \<open>
  \<open>Project\<close> as the two project forms hold it (\<open>Partial<Project>\<close>: every field may be
  absent) and \<open>ProjectMember\<close>. Field names that \<open>Task\<close> or \<open>Employee\<close> already use
  carry a prefix.
\<close>

record Project =
  project_name :: "nat list option"
  project_start_date :: "int option"
  project_end_date :: "int option"

record ProjectMember =
  member_project_id :: int
  member_employee_id :: int
  allocation_ratio :: "rat option"

record ScheduleCalculationResult =
  result_tasks :: "Task list"
  critical_path :: "int list"
  total_duration :: int

section \<open>Dependency-graph editor (PERTChart component)\<close>

subsection \<open>The connection handler \<open>onConnect\<close>\<close>

record Connection =
  source :: "int option"
  target :: "int option"

text \<open>
  The requests the screens send to the backend (\<open>utils/api\<close>), with the part of the
  payload the properties below depend on.
\<close>

datatype api_call =
  TaskCreate "nat list"
  | TaskUpdateStatus int
  | TaskUpdateDetails int "nat list"
  | TaskUpdatePosition int
  | DependencyCreate TaskDependency
  | DependencyDelete int int
  | MemberAdd int rat
  | MemberRemove int
  | MemberUpdate int "rat option"
  | ProjectCreate Project
  | ProjectUpdate Project
  | ScheduleCalculate

text \<open>The alerts of the two task views, named after their message.\<close>

datatype view_alert =
  SameTaskAlert
  | AlreadyExistsAlert
  | CircularDependencyAlert
  | CreationFailedAlert
  | DeletionFailedAlert
  | TaskNameRequiredAlert
  | DurationRequiredAlert
  | AssigneeRequiredAlert
  | TaskCreateFailedAlert
  | TaskUpdateFailedAlert

text \<open>
  What a handler of a task view does, in order: an alert, a request it sends itself
  (with whether the promise resolves), or a call of one of the callbacks the page passes
  in as props.
\<close>

datatype view_effect =
  Alert view_alert
  | TaskAPI api_call bool
  | OnCreateTask "nat list"
  | OnCreateDependency TaskDependency
  | OnScheduleChange
  | OnUpdateTask

text \<open>\<open>tasks.find(t => t.task_id.toString() === id)\<close>: the first task with that id.\<close>

definition findTask :: "WBSTask list \<Rightarrow> int \<Rightarrow> WBSTask option" where
  "findTask tasks i = find (\<lambda>t. task_id t = i) tasks"

text \<open>
  \<open>tasks.find(target)?.dependencies.find(d => d.depends_on_id.toString() === source)\<close>
\<close>

definition existingDependency :: "WBSTask list \<Rightarrow> int \<Rightarrow> int \<Rightarrow> TaskDependency option" where
  "existingDependency tasks src tgt =
     (case findTask tasks tgt of
        None \<Rightarrow> None
      | Some t \<Rightarrow> find (\<lambda>d. depends_on_id d = src) (dependencies t))"

text \<open>
  The ids one iteration of the walk pushes for \<open>current\<close>: the \<open>depends_on_id\<close> of each
  entry of the task's dependency list, nothing when no task has that id.
\<close>

definition pushed :: "WBSTask list \<Rightarrow> int \<Rightarrow> int list" where
  "pushed tasks current =
     (case findTask tasks current of
        None \<Rightarrow> []
      | Some t \<Rightarrow> map depends_on_id (dependencies t))"

definition allPushed :: "WBSTask list \<Rightarrow> int set" where
  "allPushed tasks = (\<Union>t \<in> set tasks. depends_on_id ` set (dependencies t))"

text \<open>
  The \<open>while (stack.length > 0)\<close> loop of \<open>hasCycle\<close>. The JavaScript array is used as a
  stack through \<open>push\<close> and \<open>pop\<close>; the model keeps its top at the head of the list, so
  pushing \<open>d1, ..., dn\<close> in \<open>forEach\<close> order puts \<open>dn\<close> first.
\<close>

function hasCycle_loop :: "WBSTask list \<Rightarrow> int \<Rightarrow> int set \<Rightarrow> int list \<Rightarrow> bool" where
  "hasCycle_loop tasks sourceId visited [] = False"
| "hasCycle_loop tasks sourceId visited (current # stack) =
     (if current \<in> visited then hasCycle_loop tasks sourceId visited stack
      else if current = sourceId then True
      else hasCycle_loop tasks sourceId (insert current visited)
             (rev (pushed tasks current) @ stack))"
  by pat_completeness auto

lemma find_Some_mem: "find P xs = Some x \<Longrightarrow> x \<in> set xs \<and> P x"
  by (induction xs) (auto split: if_splits)

lemma pushed_subset: "set (pushed tasks c) \<subseteq> allPushed tasks"
proof (cases "findTask tasks c")
  case None
  then show ?thesis by (simp add: pushed_def)
next
  case (Some t)
  then have "t \<in> set tasks"
    unfolding findTask_def by (auto dest: find_Some_mem)
  with Some show ?thesis
    by (auto simp: pushed_def allPushed_def)
qed

lemma finite_allPushed: "finite (allPushed tasks)"
  by (simp add: allPushed_def)

definition hasCycle_measures ::
  "((WBSTask list \<times> int \<times> int set \<times> int list) \<times>
    (WBSTask list \<times> int \<times> int set \<times> int list)) set" where
  "hasCycle_measures =
     measures [\<lambda>(tasks, sourceId, visited, stack).
                  card ((allPushed tasks \<union> set stack) - visited),
               \<lambda>(tasks, sourceId, visited, stack). length stack]"

lemma hasCycle_measures_pop:
  "((tasks, sourceId, visited, stack), (tasks, sourceId, visited, current # stack))
     \<in> hasCycle_measures"
proof -
  have "(allPushed tasks \<union> set stack) - visited
          \<subseteq> (allPushed tasks \<union> set (current # stack)) - visited"
    by auto
  then have "card ((allPushed tasks \<union> set stack) - visited)
               \<le> card ((allPushed tasks \<union> set (current # stack)) - visited)"
    by (intro card_mono) (simp_all add: finite_allPushed)
  then show ?thesis
    unfolding hasCycle_measures_def by auto
qed

lemma hasCycle_measures_push:
  assumes "current \<notin> visited"
  shows "((tasks, sourceId, insert current visited, rev (pushed tasks current) @ stack),
          (tasks, sourceId, visited, current # stack)) \<in> hasCycle_measures"
proof -
  let ?U = "allPushed tasks \<union> set (current # stack)"
  let ?U' = "allPushed tasks \<union> set (rev (pushed tasks current) @ stack)"
  have fin: "finite (?U - visited)"
    by (simp add: finite_allPushed)
  have "?U' - insert current visited \<subseteq> ?U - visited"
    using pushed_subset[of tasks current] by auto
  moreover have "current \<in> ?U - visited" "current \<notin> ?U' - insert current visited"
    using assms by auto
  ultimately have "?U' - insert current visited \<subset> ?U - visited"
    by blast
  then have "card (?U' - insert current visited) < card (?U - visited)"
    using fin by (rule psubset_card_mono[rotated])
  then show ?thesis
    unfolding hasCycle_measures_def by simp
qed

termination hasCycle_loop
proof (relation hasCycle_measures)
  show "wf hasCycle_measures"
    unfolding hasCycle_measures_def by simp
qed (auto intro: hasCycle_measures_pop hasCycle_measures_push)

text \<open>\<open>hasCycle(sourceId, targetId)\<close>: the walk starts from the target.\<close>

definition hasCycle :: "WBSTask list \<Rightarrow> int \<Rightarrow> int \<Rightarrow> bool" where
  "hasCycle tasks sourceId targetId = hasCycle_loop tasks sourceId {} [targetId]"

text \<open>
  \<open>onConnect\<close>. The handler returns the calls it makes, in order. \<open>apiOk\<close> tells whether
  the promise of \<open>onCreateDependency\<close> resolves; when it rejects the \<open>catch\<close> block
  raises the failure alert. \<open>onUpdateTask\<close> catches its own errors.
\<close>

definition onConnect ::
  "WBSTask list \<Rightarrow> dependency_type \<Rightarrow> bool \<Rightarrow> Connection \<Rightarrow> view_effect list" where
  "onConnect tasks dependencyType apiOk params =
     (case (source params, target params) of
        (Some src, Some tgt) \<Rightarrow>
          if src = tgt then [Alert SameTaskAlert]
          else if existingDependency tasks src tgt \<noteq> None then [Alert AlreadyExistsAlert]
          else if hasCycle tasks src tgt then [Alert CircularDependencyAlert]
          else OnCreateDependency
                 \<lparr>dep_task_id = tgt, depends_on_id = src, dependency_type = dependencyType\<rparr>
               # (if apiOk then [OnScheduleChange, OnUpdateTask]
                  else [Alert CreationFailedAlert])
      | _ \<Rightarrow> [])"

text \<open>
  The dependency relation the editor reads off a task snapshot: \<open>(a, b)\<close> when the
  dependency list of the task with id \<open>a\<close> names \<open>b\<close> as \<open>depends_on_id\<close>, that is,
  \<open>a\<close> depends on \<open>b\<close> (\<open>b\<close> is the predecessor).
\<close>

definition dependsOn :: "WBSTask list \<Rightarrow> (int \<times> int) set" where
  "dependsOn tasks = {(a, b). b \<in> set (pushed tasks a)}"

text \<open>
  Drawing an edge from \<open>src\<close> to \<open>tgt\<close> makes \<open>tgt\<close> depend on \<open>src\<close>. With \<open>src \<noteq> tgt\<close>
  the new edge closes a cycle exactly when \<open>src\<close> already depends, in zero or more
  steps, on \<open>tgt\<close>.
\<close>

definition introducesCycle :: "WBSTask list \<Rightarrow> int \<Rightarrow> int \<Rightarrow> bool" where
  "introducesCycle tasks src tgt \<longleftrightarrow> (src, tgt) \<in> (dependsOn tasks)\<^sup>*"

subsection \<open>What the walk of \<open>hasCycle\<close> computes\<close>

lemma escape_visited:
  assumes "(v, s) \<in> R\<^sup>*" and "v \<in> V" and "s \<notin> V"
    and "\<And>a b. a \<in> V \<Longrightarrow> (a, b) \<in> R \<Longrightarrow> b \<in> V \<union> S"
  shows "\<exists>x \<in> S - V. (x, s) \<in> R\<^sup>*"
  using assms(1,2)
proof (induction rule: converse_rtrancl_induct)
  case base
  with assms(3) show ?case by simp
next
  case (step a b)
  from assms(4)[OF step.prems step.hyps(1)] have "b \<in> V \<or> b \<in> S - V"
    by auto
  then show ?case
  proof
    assume "b \<in> V"
    then show ?thesis by (rule step.IH)
  next
    assume "b \<in> S - V"
    with step.hyps(2) show ?thesis by blast
  qed
qed

lemma hasCycle_loop_reach:
  assumes "sourceId \<notin> visited"
    and "\<And>a b. a \<in> visited \<Longrightarrow> (a, b) \<in> dependsOn tasks \<Longrightarrow> b \<in> visited \<union> set stack"
  shows "hasCycle_loop tasks sourceId visited stack
           \<longleftrightarrow> (\<exists>x \<in> set stack. (x, sourceId) \<in> (dependsOn tasks)\<^sup>*)"
  using assms
proof (induction tasks sourceId visited stack rule: hasCycle_loop.induct)
  case (1 tasks sourceId visited)
  then show ?case by simp
next
  case (2 tasks sourceId visited current stack)
  let ?R = "dependsOn tasks"
  show ?case
  proof (cases "current \<in> visited")
    case True
    have closed: "\<And>a b. a \<in> visited \<Longrightarrow> (a, b) \<in> ?R \<Longrightarrow> b \<in> visited \<union> set stack"
      using "2.prems"(2) True by fastforce
    have ih: "hasCycle_loop tasks sourceId visited stack
                \<longleftrightarrow> (\<exists>x \<in> set stack. (x, sourceId) \<in> ?R\<^sup>*)"
      using "2.IH"(1)[OF True "2.prems"(1)] closed by blast
    have "(current, sourceId) \<in> ?R\<^sup>* \<Longrightarrow> \<exists>x \<in> set stack. (x, sourceId) \<in> ?R\<^sup>*"
    proof -
      assume "(current, sourceId) \<in> ?R\<^sup>*"
      from escape_visited[OF this True "2.prems"(1), of "set stack"] closed
      show ?thesis by blast
    qed
    with ih True show ?thesis by auto
  next
    case False
    show ?thesis
    proof (cases "current = sourceId")
      case True
      with False show ?thesis by auto
    next
      case ne: False
      let ?stack' = "rev (pushed tasks current) @ stack"
      have closed': "\<And>a b. a \<in> insert current visited \<Longrightarrow> (a, b) \<in> ?R
                       \<Longrightarrow> b \<in> insert current visited \<union> set ?stack'"
      proof -
        fix a b assume a: "a \<in> insert current visited" and ab: "(a, b) \<in> ?R"
        show "b \<in> insert current visited \<union> set ?stack'"
        proof (cases "a = current")
          case True
          with ab show ?thesis by (simp add: dependsOn_def)
        next
          case False
          with a have "a \<in> visited" by simp
          from "2.prems"(2)[OF this ab] show ?thesis by auto
        qed
      qed
      have src: "sourceId \<notin> insert current visited"
        using ne "2.prems"(1) by auto
      have ih: "hasCycle_loop tasks sourceId (insert current visited) ?stack'
                  \<longleftrightarrow> (\<exists>x \<in> set ?stack'. (x, sourceId) \<in> ?R\<^sup>*)"
        using "2.IH"(2)[OF False ne src] closed' by blast
      have "(\<exists>x \<in> set ?stack'. (x, sourceId) \<in> ?R\<^sup>*)
              \<longleftrightarrow> (\<exists>x \<in> set (current # stack). (x, sourceId) \<in> ?R\<^sup>*)"
      proof
        assume "\<exists>x \<in> set ?stack'. (x, sourceId) \<in> ?R\<^sup>*"
        then obtain x where x: "x \<in> set ?stack'" "(x, sourceId) \<in> ?R\<^sup>*" by blast
        show "\<exists>x \<in> set (current # stack). (x, sourceId) \<in> ?R\<^sup>*"
        proof (cases "x \<in> set stack")
          case True
          with x(2) show ?thesis by auto
        next
          case False
          with x(1) have "(current, x) \<in> ?R" by (simp add: dependsOn_def)
          from this x(2) have "(current, sourceId) \<in> ?R\<^sup>*"
            by (rule converse_rtrancl_into_rtrancl)
          then show ?thesis by auto
        qed
      next
        assume "\<exists>x \<in> set (current # stack). (x, sourceId) \<in> ?R\<^sup>*"
        then obtain x where x: "x \<in> set (current # stack)" "(x, sourceId) \<in> ?R\<^sup>*" by blast
        show "\<exists>x \<in> set ?stack'. (x, sourceId) \<in> ?R\<^sup>*"
        proof (cases "x = current")
          case True
          with x(2) ne obtain y where "(current, y) \<in> ?R" "(y, sourceId) \<in> ?R\<^sup>*"
            by (auto elim: converse_rtranclE)
          then show ?thesis by (auto simp: dependsOn_def)
        next
          case False
          with x show ?thesis by auto
        qed
      qed
      with ih False ne show ?thesis by simp
    qed
  qed
qed

text \<open>
  The walk answers whether the source is reachable from the target along the dependency
  lists: whether the target already depends, in zero or more steps, on the source.
\<close>

lemma hasCycle_reach:
  "hasCycle tasks sourceId targetId \<longleftrightarrow> (targetId, sourceId) \<in> (dependsOn tasks)\<^sup>*"
  unfolding hasCycle_def by (subst hasCycle_loop_reach) auto

lemma introducesCycle_hasCycle:
  "introducesCycle tasks src tgt \<longleftrightarrow> hasCycle tasks tgt src"
  by (simp add: introducesCycle_def hasCycle_reach)

lemma existingDependency_dependsOn:
  "existingDependency tasks src tgt \<noteq> None \<longleftrightarrow> (tgt, src) \<in> dependsOn tasks"
  by (cases "findTask tasks tgt")
     (auto simp: existingDependency_def dependsOn_def pushed_def find_None_iff)

text \<open>With unique task ids the relation is the plain set of edges of the snapshot.\<close>

lemma findTask_distinct:
  assumes "distinct (map task_id tasks)" and "t \<in> set tasks"
  shows "findTask tasks (task_id t) = Some t"
  using assms unfolding findTask_def
  by (induction tasks) (auto simp: image_iff)

lemma dependsOn_distinct:
  assumes "distinct (map task_id tasks)"
  shows "dependsOn tasks =
           {(task_id t, depends_on_id d) | t d. t \<in> set tasks \<and> d \<in> set (dependencies t)}"
proof (intro set_eqI iffI; clarify)
  fix a b assume "(a, b) \<in> dependsOn tasks"
  then obtain t where t: "findTask tasks a = Some t" "b \<in> depends_on_id ` set (dependencies t)"
    by (cases "findTask tasks a") (auto simp: dependsOn_def pushed_def)
  then have "t \<in> set tasks" "task_id t = a"
    unfolding findTask_def by (auto dest: find_Some_mem)
  with t(2) show "\<exists>t d. (a, b) = (task_id t, depends_on_id d)
                     \<and> t \<in> set tasks \<and> d \<in> set (dependencies t)"
    by auto
next
  fix t d assume "t \<in> set tasks" "d \<in> set (dependencies t)"
  then show "(task_id t, depends_on_id d) \<in> dependsOn tasks"
    using findTask_distinct[OF assms] by (auto simp: dependsOn_def pushed_def)
qed

text \<open>A snapshot used in examples: task 2 depends on task 1, task 3 on task 2.\<close>

definition mkTask :: "int \<Rightarrow> int list \<Rightarrow> WBSTask" where
  "mkTask i preds =
     \<lparr>task_id = i, project_id = 1, task_name = ''task'', description = None,
      estimated_duration = Some 1, start_date = None, end_date = None,
      earliest_start = None, deadline = None, status_code = None,
      milestone_flag = None, assignee = None, checklist_progress = 0,
      dependencies = map (\<lambda>p. \<lparr>dep_task_id = i, depends_on_id = p, dependency_type = FS\<rparr>) preds\<rparr>"

definition chain123 :: "WBSTask list" where
  "chain123 = [mkTask 1 [], mkTask 2 [1], mkTask 3 [2]]"

lemma pushed_chain123 [simp]:
  "pushed chain123 1 = []" "pushed chain123 2 = [1]" "pushed chain123 3 = [2]"
  by (simp_all add: pushed_def findTask_def chain123_def mkTask_def)

lemma existingDependency_chain123 [simp]:
  "existingDependency chain123 3 1 = None" "existingDependency chain123 1 3 = None"
  by (simp_all add: existingDependency_def findTask_def chain123_def mkTask_def)

subsection \<open>Claims on the connection handler\<close>

text \<open>
  Claim C3. A connection whose source equals its target, or whose ordered pair
  (predecessor \<open>src\<close>, successor \<open>tgt\<close>) is already in the dependency list of the target
  task, is rejected with an alert, and \<open>onCreateDependency\<close> is not called.
\<close>

theorem onConnect_rejects_self_loop_and_duplicate:
  assumes "source params = Some src" and "target params = Some tgt"
    and "src = tgt \<or> (tgt, src) \<in> dependsOn tasks"
  shows "(onConnect tasks dependencyType apiOk params = [Alert SameTaskAlert]
            \<or> onConnect tasks dependencyType apiOk params = [Alert AlreadyExistsAlert])
         \<and> (\<forall>d. OnCreateDependency d \<notin> set (onConnect tasks dependencyType apiOk params))"
proof (cases "src = tgt")
  case True
  with assms(1,2) show ?thesis by (simp add: onConnect_def)
next
  case False
  with assms(3) have "existingDependency tasks src tgt \<noteq> None"
    using existingDependency_dependsOn[of tasks src tgt] by blast
  with False assms(1,2) show ?thesis by (auto simp: onConnect_def)
qed

theorem onConnect_rejects_witness:
  "onConnect chain123 SS True \<lparr>source = Some 2, target = Some 3\<rparr> = [Alert AlreadyExistsAlert]
   \<and> onConnect chain123 SS True \<lparr>source = Some 2, target = Some 2\<rparr> = [Alert SameTaskAlert]"
proof -
  have dup: "(3, 2) \<in> dependsOn chain123"
    by (simp add: dependsOn_def)
  have "onConnect chain123 SS True \<lparr>source = Some 2, target = Some 3\<rparr> \<noteq> [Alert SameTaskAlert]"
    by (simp add: onConnect_def)
  moreover have
    "onConnect chain123 SS True \<lparr>source = Some 2, target = Some 2\<rparr> \<noteq> [Alert AlreadyExistsAlert]"
    by (simp add: onConnect_def)
  ultimately show ?thesis
    using onConnect_rejects_self_loop_and_duplicate
            [of "\<lparr>source = Some 2, target = Some 3\<rparr>" 2 3 chain123 SS True]
          onConnect_rejects_self_loop_and_duplicate
            [of "\<lparr>source = Some 2, target = Some 2\<rparr>" 2 2 chain123 SS True]
          dup
    by simp
qed

text \<open>
  Claim C1. The pre-check is meant to block an edge exactly when the edge would close a
  cycle. On the chain \<open>1 \<leftarrow> 2 \<leftarrow> 3\<close> it does the opposite in both directions: drawing
  the edge from 3 to 1 (task 1 would depend on task 3, closing the cycle) passes the check
  and \<open>onCreateDependency\<close> is called, while drawing the edge from 1 to 3 (task 3 would
  depend on task 1, which closes no cycle) is refused with the cycle alert. The walk
  starts from the target and follows the dependency lists, so it finds the edges that are
  already implied, not the ones that close a cycle (\<open>introducesCycle_hasCycle\<close>: the
  cycle test is \<open>hasCycle\<close> with its two arguments exchanged).
\<close>

theorem onConnect_cycle_check_reversed:
  "onConnect chain123 FS True \<lparr>source = Some 3, target = Some 1\<rparr>
     = [OnCreateDependency \<lparr>dep_task_id = 1, depends_on_id = 3, dependency_type = FS\<rparr>,
        OnScheduleChange, OnUpdateTask]
   \<and> introducesCycle chain123 3 1
   \<and> onConnect chain123 FS True \<lparr>source = Some 1, target = Some 3\<rparr>
     = [Alert CircularDependencyAlert]
   \<and> \<not> introducesCycle chain123 1 3"
  by (simp add: onConnect_def introducesCycle_hasCycle hasCycle_def)

section \<open>The bracketed category convention\<close>

text \<open>
  A JavaScript string is a sequence of UTF-16 code units; the model is a list of their
  numeric values (\<open>description :: nat list option\<close> in \<open>Task\<close>). \<open>js\<close> writes a literal.
\<close>

definition js :: "string \<Rightarrow> nat list" where
  "js s = map of_char s"

text \<open>The class \<open>\s\<close> of a regular expression: white space and line terminators.\<close>

definition isWhiteSpace :: "nat \<Rightarrow> bool" where
  "isWhiteSpace c \<longleftrightarrow>
     c \<in> {9, 10, 11, 12, 13, 32, 160, 5760, 8232, 8233, 8239, 8287, 12288, 65279}
     \<or> (8192 \<le> c \<and> c \<le> 8202)"

text \<open>The code units \<open>.\<close> does not match.\<close>

definition isLineTerminator :: "nat \<Rightarrow> bool" where
  "isLineTerminator c \<longleftrightarrow> c \<in> {10, 13, 8232, 8233}"

text \<open>
  \<open>s.match(/^\[([^\]]+)\]/)\<close>: after the opening bracket (code unit 91) the group takes the
  longest run of code units other than the closing bracket (93); the match needs the run
  to be non-empty and followed by a closing bracket. No shorter run can match, since the
  code unit after a shorter run is not a closing bracket. The result is the group and
  the text after the match.
\<close>

definition matchCategory :: "nat list \<Rightarrow> (nat list \<times> nat list) option" where
  "matchCategory s =
     (case s of
        [] \<Rightarrow> None
      | c # cs \<Rightarrow>
          if c \<noteq> 91 then None
          else let g = takeWhile (\<lambda>x. x \<noteq> 93) cs; r = dropWhile (\<lambda>x. x \<noteq> 93) cs
               in if g = [] \<or> r = [] then None else Some (g, tl r))"

text \<open>\<open>d && d.startsWith('[') && d.includes(']')\<close>\<close>

definition looksBracketed :: "nat list \<Rightarrow> bool" where
  "looksBracketed d \<longleftrightarrow> d \<noteq> [] \<and> take 1 d = [91] \<and> 93 \<in> set d"

definition getTaskCategory :: "WBSTask \<Rightarrow> nat list option" where
  "getTaskCategory task =
     (case description task of
        None \<Rightarrow> None
      | Some d \<Rightarrow> if looksBracketed d then map_option fst (matchCategory d) else None)"

text \<open>
  \<open>description.match(/^\[([^\]]+)\]\s*(.*)/)\<close>, group 2: \<open>\s*\<close> takes the longest run of
  white space and \<open>(.*)\<close> the longest run without a line terminator; both may be empty,
  so the match succeeds whenever the bracketed prefix matches.
\<close>

definition getDescriptionWithoutCategory :: "nat list \<Rightarrow> nat list" where
  "getDescriptionWithoutCategory desc =
     (if looksBracketed desc then
        (case matchCategory desc of
           Some (g, rest) \<Rightarrow>
             takeWhile (\<lambda>x. \<not> isLineTerminator x) (dropWhile isWhiteSpace rest)
         | None \<Rightarrow> desc)
      else desc)"

text \<open>
  \<open>handleCreateTask\<close>: \<open>newTask.task_category ? `[${newTask.task_category}] ${newTask.description}`
  : newTask.description\<close>
\<close>

definition composeDescription :: "nat list \<Rightarrow> nat list \<Rightarrow> nat list" where
  "composeDescription task_category desc =
     (if task_category \<noteq> [] then [91] @ task_category @ [93, 32] @ desc
      else desc)"

lemma matchCategory_compose:
  assumes "c \<noteq> []" and "93 \<notin> set c"
  shows "matchCategory (composeDescription c d) = Some (c, 32 # d)"
proof -
  have "takeWhile (\<lambda>x. x \<noteq> 93) (c @ 93 # 32 # d) = c"
    using assms(2) by (induction c) auto
  moreover have "dropWhile (\<lambda>x. x \<noteq> 93) (c @ 93 # 32 # d) = 93 # 32 # d"
    using assms(2) by (induction c) auto
  ultimately show ?thesis
    using assms(1) by (simp add: matchCategory_def composeDescription_def)
qed

lemma matchCategory_group_no_bracket:
  "matchCategory s = Some (g, r) \<Longrightarrow> 93 \<notin> set g"
  by (auto simp: matchCategory_def Let_def split: list.splits if_splits
      dest: set_takeWhileD)

lemma looksBracketed_compose: "c \<noteq> [] \<Longrightarrow> looksBracketed (composeDescription c d)"
  by (simp add: looksBracketed_def composeDescription_def)

lemma takeWhile_dropWhile_id:
  "takeWhile P (dropWhile Q d) = d \<longleftrightarrow> (d = [] \<or> \<not> Q (hd d)) \<and> (\<forall>x \<in> set d. P x)"
proof
  assume eq: "takeWhile P (dropWhile Q d) = d"
  have "length (takeWhile P (dropWhile Q d)) \<le> length (dropWhile Q d)"
    by (rule length_takeWhile_le)
  with eq have "length d \<le> length (dropWhile Q d)" by simp
  moreover have "length (dropWhile Q d) \<le> length d"
    by (rule length_dropWhile_le)
  ultimately have len: "length (dropWhile Q d) = length d" by simp
  have hd: "d = [] \<or> \<not> Q (hd d)"
  proof (cases d)
    case Nil
    then show ?thesis by simp
  next
    case (Cons a list)
    have "length (dropWhile Q list) \<le> length list"
      by (rule length_dropWhile_le)
    with len Cons show ?thesis by (auto split: if_splits)
  qed
  then have "dropWhile Q d = d"
    by (cases d) auto
  with eq have "takeWhile P d = d" by simp
  then have "\<forall>x \<in> set d. P x"
    by (metis set_takeWhileD)
  moreover note hd
  ultimately show "(d = [] \<or> \<not> Q (hd d)) \<and> (\<forall>x \<in> set d. P x)" by simp
next
  assume "(d = [] \<or> \<not> Q (hd d)) \<and> (\<forall>x \<in> set d. P x)"
  then show "takeWhile P (dropWhile Q d) = d"
    by (cases d) auto
qed

subsection \<open>Claims on the category convention\<close>

text \<open>
  Claim C7 as stated fails: a category that contains a closing bracket is cut at the
  bracket, and a description that starts with white space loses it (\<open>\s*\<close> takes it).
  Category \<open>a]b\<close> with description \<open>x\<close> is stored as \<open>[a]b] x\<close> and read back as category
  \<open>a\<close> and description \<open>b] x\<close>; category \<open>a\<close> with description \<open> x\<close> (leading space) is
  read back with description \<open>x\<close>.
\<close>

theorem category_roundtrip_counterexample:
  "js ''a]b'' \<noteq> []
   \<and> getTaskCategory
         ((mkTask 1 [])\<lparr>description := Some (composeDescription (js ''a]b'') (js ''x''))\<rparr>)
       = Some (js ''a'')
   \<and> js ''a'' \<noteq> js ''a]b''
   \<and> getDescriptionWithoutCategory (composeDescription (js ''a]b'') (js ''x'')) = js ''b] x''
   \<and> getDescriptionWithoutCategory (composeDescription (js ''a'') (js '' x'')) = js ''x''
   \<and> js ''x'' \<noteq> js '' x''"
  by (simp add: js_def getTaskCategory_def getDescriptionWithoutCategory_def
      composeDescription_def looksBracketed_def matchCategory_def
      isWhiteSpace_def isLineTerminator_def)

lemma category_roundtrip_iff:
  assumes "c \<noteq> []"
  shows "(getTaskCategory (task\<lparr>description := Some (composeDescription c d)\<rparr>) = Some c
          \<and> getDescriptionWithoutCategory (composeDescription c d) = d)
         \<longleftrightarrow> (93 \<notin> set c \<and> (d = [] \<or> \<not> isWhiteSpace (hd d))
              \<and> (\<forall>x \<in> set d. \<not> isLineTerminator x))"
proof (cases "93 \<in> set c")
  case True
  have "getTaskCategory (task\<lparr>description := Some (composeDescription c d)\<rparr>) \<noteq> Some c"
  proof
    assume "getTaskCategory (task\<lparr>description := Some (composeDescription c d)\<rparr>) = Some c"
    then obtain r where "matchCategory (composeDescription c d) = Some (c, r)"
      by (auto simp: getTaskCategory_def split: if_splits)
    from matchCategory_group_no_bracket[OF this] True show False by simp
  qed
  with True show ?thesis by simp
next
  case False
  note m = matchCategory_compose[OF assms False, of d]
  have cat: "getTaskCategory (task\<lparr>description := Some (composeDescription c d)\<rparr>) = Some c"
    by (simp add: getTaskCategory_def looksBracketed_compose[OF assms] m)
  have "getDescriptionWithoutCategory (composeDescription c d)
          = takeWhile (\<lambda>x. \<not> isLineTerminator x) (dropWhile isWhiteSpace d)"
    by (simp add: getDescriptionWithoutCategory_def looksBracketed_compose[OF assms] m
        isWhiteSpace_def)
  with cat False show ?thesis
    by (simp add: takeWhile_dropWhile_id)
qed

text \<open>
  Claim C7, amended. For a non-empty category \<open>c\<close> that contains no closing bracket and a
  description \<open>d\<close> that does not start with white space and contains no line terminator,
  the task stored with description \<open>[c] d\<close> gives back \<open>c\<close> as its category and \<open>d\<close> as
  its description.
\<close>

theorem category_roundtrip:
  assumes "c \<noteq> []" and "93 \<notin> set c"
    and "d = [] \<or> \<not> isWhiteSpace (hd d)" and "\<forall>x \<in> set d. \<not> isLineTerminator x"
  shows "getTaskCategory (task\<lparr>description := Some (composeDescription c d)\<rparr>) = Some c
         \<and> getDescriptionWithoutCategory (composeDescription c d) = d"
  using category_roundtrip_iff[OF assms(1), where task = task and d = d] assms(2,3,4) by blast

theorem category_roundtrip_witness:
  "getTaskCategory
     ((mkTask 1 [])\<lparr>description := Some (composeDescription (js ''dev'') (js ''impl''))\<rparr>)
     = Some (js ''dev'')
   \<and> getDescriptionWithoutCategory (composeDescription (js ''dev'') (js ''impl'')) = js ''impl''"
proof -
  have c: "js ''dev'' \<noteq> []" "93 \<notin> set (js ''dev'')"
    by (simp_all add: js_def)
  have d: "js ''impl'' = [] \<or> \<not> isWhiteSpace (hd (js ''impl''))"
    "\<forall>x \<in> set (js ''impl''). \<not> isLineTerminator x"
    by (simp_all add: js_def isWhiteSpace_def isLineTerminator_def)
  from category_roundtrip[OF c d, where task = "mkTask 1 []"] show ?thesis .
qed

section \<open>Timeline view (WBSView component)\<close>

subsection \<open>\<open>getTaskPosition\<close>\<close>

record TaskPosition =
  left :: int
  width :: int

text \<open>\<open>Array.prototype.findIndex\<close>: the first index whose element passes, \<open>-1\<close> when none does.\<close>

fun findIndex :: "('a \<Rightarrow> bool) \<Rightarrow> 'a list \<Rightarrow> int" where
  "findIndex P [] = - 1"
| "findIndex P (x # xs) =
     (if P x then 0
      else let i = findIndex P xs in if i = - 1 then - 1 else i + 1)"

text \<open>\<open>Math.ceil(a / b)\<close> on integers, for a positive divisor.\<close>

definition ceilDiv :: "int \<Rightarrow> int \<Rightarrow> int" where
  "ceilDiv a b = - ((- a) div b)"

text \<open>
  \<open>getTaskPosition\<close>. \<open>dateRange\<close> is the list of rendered days, each a \<open>Date\<close>, kept as
  its time value. \<open>toDateString\<close>, the day of a time value in the browser's time zone, is
  a parameter.
\<close>

definition getTaskPosition ::
  "(int \<Rightarrow> 'd) \<Rightarrow> int list \<Rightarrow> WBSTask \<Rightarrow> TaskPosition option" where
  "getTaskPosition toDateString dateRange task =
     (case start_date task of
        None \<Rightarrow> None
      | Some taskStart \<Rightarrow>
          (case end_date task of
             None \<Rightarrow> None
           | Some taskEnd \<Rightarrow>
               let startIndex =
                     findIndex (\<lambda>date. toDateString date = toDateString taskStart) dateRange;
                   durationDays = ceilDiv (taskEnd - taskStart) (1000 * 60 * 60 * 24) + 1
               in if startIndex = - 1 then None
                  else Some \<lparr>left = startIndex * 30, width = max (durationDays * 30) 25\<rparr>))"

text \<open>
  The inclusive calendar-day span in the words of the claim:
  \<open>ceil((end - start) / day) + 1\<close>, the quotient taken in the rationals.
\<close>

definition calendarDaySpan :: "int \<Rightarrow> int \<Rightarrow> int" where
  "calendarDaySpan taskStart taskEnd =
     \<lceil>(of_int (taskEnd - taskStart) :: rat) / 86400000\<rceil> + 1"

lemma findIndex_range: "findIndex P xs = - 1 \<or> 0 \<le> findIndex P xs"
  by (induction xs) (auto simp: Let_def)

lemma findIndex_none: "findIndex P xs = - 1 \<longleftrightarrow> (\<forall>x \<in> set xs. \<not> P x)"
proof (induction xs)
  case Nil
  then show ?case by simp
next
  case (Cons x xs)
  from findIndex_range[of P xs] have "findIndex P xs + 1 \<noteq> - 1" by auto
  with Cons show ?case by (auto simp: Let_def)
qed

lemma ceilDiv_ceiling:
  "ceilDiv a b = \<lceil>(of_int a :: rat) / of_int b\<rceil>"
proof -
  have "\<lceil>(of_int a :: rat) / of_int b\<rceil> = - \<lfloor>(of_int (- a) :: rat) / of_int b\<rfloor>"
    by (simp add: ceiling_def)
  also have "\<dots> = - ((- a) div b)"
    by (simp only: floor_divide_of_int_eq)
  finally show ?thesis by (simp add: ceilDiv_def)
qed

lemma durationDays_span:
  "ceilDiv (taskEnd - taskStart) (1000 * 60 * 60 * 24) + 1 = calendarDaySpan taskStart taskEnd"
  using ceilDiv_ceiling[of "taskEnd - taskStart" 86400000]
  by (simp add: calendarDaySpan_def)

definition spanTask :: "int \<Rightarrow> int \<Rightarrow> WBSTask" where
  "spanTask s e = (mkTask 1 [])\<lparr>start_date := Some s, end_date := Some e\<rparr>"

text \<open>
  Claim C10. \<open>getTaskPosition\<close> returns null exactly for the tasks without a start date,
  without an end date, or whose start day is none of the rendered days; for every other
  task it returns a position whose width is the larger of 25 and 30 times the inclusive
  calendar-day span, so at least 25 and at least 30 times the span.
\<close>

theorem getTaskPosition_total:
  "(getTaskPosition toDateString dateRange task = None
      \<longleftrightarrow> (start_date task = None \<or> end_date task = None
           \<or> (\<forall>date \<in> set dateRange.
                 toDateString date \<noteq> toDateString (the (start_date task)))))
   \<and> (\<forall>p s e. getTaskPosition toDateString dateRange task = Some p
          \<longrightarrow> start_date task = Some s \<longrightarrow> end_date task = Some e
          \<longrightarrow> 25 \<le> width p \<and> 30 * calendarDaySpan s e \<le> width p
              \<and> width p = max (30 * calendarDaySpan s e) 25)"
proof (cases "start_date task")
  case None
  then show ?thesis by (simp add: getTaskPosition_def)
next
  case s: (Some s)
  show ?thesis
  proof (cases "end_date task")
    case None
    with s show ?thesis by (simp add: getTaskPosition_def)
  next
    case e: (Some e)
    show ?thesis
      using s e durationDays_span[of e s]
      by (auto simp: getTaskPosition_def Let_def findIndex_none)
  qed
qed

theorem getTaskPosition_total_witness:
  "getTaskPosition (\<lambda>t. t div 86400000) [0, 86400000, 172800000] (spanTask 86400000 172800000)
     = Some \<lparr>left = 30, width = 60\<rparr>
   \<and> calendarDaySpan 86400000 172800000 = 2
   \<and> getTaskPosition (\<lambda>t. t div 86400000) [0, 86400000, 172800000] (spanTask 259200000 345600000)
     = None"
proof -
  let ?tds = "\<lambda>t::int. t div 86400000"
  let ?range = "[0, 86400000, 172800000] :: int list"
  have pos: "getTaskPosition ?tds ?range (spanTask 86400000 172800000)
               = Some \<lparr>left = 30, width = 60\<rparr>"
    by (simp add: getTaskPosition_def spanTask_def mkTask_def ceilDiv_def)
  have dates: "start_date (spanTask 86400000 172800000) = Some 86400000"
    "end_date (spanTask 86400000 172800000) = Some 172800000"
    "start_date (spanTask 259200000 345600000) = Some 259200000"
    "end_date (spanTask 259200000 345600000) = Some 345600000"
    by (simp_all add: spanTask_def mkTask_def)
  from getTaskPosition_total[of ?tds ?range "spanTask 86400000 172800000"] pos dates
  have "width \<lparr>left = 30, width = 60\<rparr> = max (30 * calendarDaySpan 86400000 172800000) 25"
    by blast
  then have span: "calendarDaySpan 86400000 172800000 = 2"
    by (simp add: max_def split: if_splits)
  from getTaskPosition_total[of ?tds ?range "spanTask 259200000 345600000"] dates
  have "getTaskPosition ?tds ?range (spanTask 259200000 345600000) = None"
    by simp
  with pos span show ?thesis by simp
qed

section \<open>Task and dependency handlers of the two task views\<close>

text \<open>\<open>String.prototype.trim\<close> strips white space and line terminators at both ends.\<close>

definition trim :: "nat list \<Rightarrow> nat list" where
  "trim s = rev (dropWhile isWhiteSpace (rev (dropWhile isWhiteSpace s)))"

text \<open>
  The task forms. \<open>estimated_duration\<close> is a number, \<open>None\<close> standing for \<open>NaN\<close>;
  \<open>assignee_id\<close> is the selected employee, \<open>None\<close> for the empty selection.
\<close>

record NewTask =
  new_task_name :: "nat list"
  new_description :: "nat list"
  new_estimated_duration :: "rat option"
  task_category :: "nat list"
  new_assignee_id :: "int option"
  new_milestone_flag :: bool

record EditData =
  edit_task_name :: "nat list"
  category :: "nat list"
  edit_description :: "nat list"
  edit_estimated_duration :: "rat option"
  edit_assignee_id :: "int option"

text \<open>
  The validation both forms start with: \<open>!name.trim()\<close>, then
  \<open>!estimated_duration || estimated_duration <= 0\<close>, then \<open>!assignee_id\<close>.
\<close>

definition validateTaskForm ::
  "nat list \<Rightarrow> rat option \<Rightarrow> int option \<Rightarrow> view_alert option" where
  "validateTaskForm name duration assignee_id =
     (if trim name = [] then Some TaskNameRequiredAlert
      else if (case duration of None \<Rightarrow> True | Some x \<Rightarrow> x \<le> 0)
        then Some DurationRequiredAlert
      else if assignee_id = None then Some AssigneeRequiredAlert
      else None)"

text \<open>WBSView: \<open>handleStatusUpdate\<close>, \<open>handleCreateTask\<close>, \<open>handleSaveTask\<close>.\<close>

definition wbs_handleStatusUpdate :: "int \<Rightarrow> bool \<Rightarrow> view_effect list" where
  "wbs_handleStatusUpdate taskId apiOk =
     TaskAPI (TaskUpdateStatus taskId) apiOk
     # (if apiOk then [OnScheduleChange, OnUpdateTask] else [])"

definition wbs_handleCreateTask :: "NewTask \<Rightarrow> bool \<Rightarrow> view_effect list" where
  "wbs_handleCreateTask newTask apiOk =
     (case validateTaskForm (new_task_name newTask) (new_estimated_duration newTask)
             (new_assignee_id newTask) of
        Some a \<Rightarrow> [Alert a]
      | None \<Rightarrow>
          TaskAPI (TaskCreate (composeDescription (task_category newTask)
                                 (new_description newTask))) apiOk
          # (if apiOk then [OnScheduleChange, OnUpdateTask]
             else [Alert TaskCreateFailedAlert]))"

definition wbs_handleSaveTask :: "WBSTask option \<Rightarrow> EditData \<Rightarrow> bool \<Rightarrow> view_effect list" where
  "wbs_handleSaveTask selectedTask editData apiOk =
     (case selectedTask of
        None \<Rightarrow> []
      | Some t \<Rightarrow>
          (case validateTaskForm (edit_task_name editData) (edit_estimated_duration editData)
                  (edit_assignee_id editData) of
             Some a \<Rightarrow> [Alert a]
           | None \<Rightarrow>
               TaskAPI (TaskUpdateDetails (task_id t)
                          (composeDescription (trim (category editData))
                             (edit_description editData))) apiOk
               # (if apiOk then [OnScheduleChange, OnUpdateTask]
                  else [Alert TaskUpdateFailedAlert])))"

text \<open>
  PERTChart: \<open>onEdgeClick\<close> (after \<open>window.confirm\<close>), \<open>onNodeDragStop\<close>,
  \<open>handleCreateTask\<close>, and \<open>handleSave\<close> of the detail panel, whose \<open>onUpdate\<close> prop is
  \<open>onScheduleChange(); await onUpdateTask()\<close>. \<open>handleCreateTask\<close> awaits the page's
  \<open>onCreateTask\<close>, which catches its own errors, and then always calls
  \<open>onScheduleChange\<close>.
\<close>

definition onEdgeClick :: "int \<Rightarrow> int \<Rightarrow> bool \<Rightarrow> bool \<Rightarrow> view_effect list" where
  "onEdgeClick sourceId targetId confirmed apiOk =
     (if confirmed then
        TaskAPI (DependencyDelete targetId sourceId) apiOk
        # (if apiOk then [OnScheduleChange, OnUpdateTask] else [Alert DeletionFailedAlert])
      else [])"

definition onNodeDragStop :: "int \<Rightarrow> bool \<Rightarrow> view_effect list" where
  "onNodeDragStop nodeId apiOk = [TaskAPI (TaskUpdatePosition nodeId) apiOk]"

definition pert_handleCreateTask :: "NewTask \<Rightarrow> view_effect list" where
  "pert_handleCreateTask newTask =
     (case validateTaskForm (new_task_name newTask) (new_estimated_duration newTask)
             (new_assignee_id newTask) of
        Some a \<Rightarrow> [Alert a]
      | None \<Rightarrow>
          [OnCreateTask (composeDescription (task_category newTask) (new_description newTask)),
           OnScheduleChange, OnUpdateTask])"

definition pert_handleSave :: "WBSTask \<Rightarrow> EditData \<Rightarrow> bool \<Rightarrow> view_effect list" where
  "pert_handleSave task editData apiOk =
     (case validateTaskForm (edit_task_name editData) (edit_estimated_duration editData)
             (edit_assignee_id editData) of
        Some a \<Rightarrow> [Alert a]
      | None \<Rightarrow>
          TaskAPI (TaskUpdateDetails (task_id task)
                     (composeDescription (trim (category editData))
                        (edit_description editData))) apiOk
          # (if apiOk then [OnScheduleChange, OnUpdateTask]
             else [Alert TaskUpdateFailedAlert]))"

section \<open>The project screen (ProjectDetail page)\<close>

datatype page_alert =
  CapacityExceededAlert int
  | MemberAddFailedAlert
  | MemberUpdateFailedAlert
  | ProjectNameRequiredAlert
  | StartDateRequiredAlert
  | EndDateRequiredAlert
  | EndNotAfterStartAlert
  | ProjectUpdateFailedAlert
  | ProjectCreateFailedAlert
  | RecalculationCompletedAlert int nat
  | RecalculationFailedAlert

text \<open>
  What a handler of a page does, in order: alerts, requests (with whether the promise
  resolves), state updates and reloads.
\<close>

datatype page_effect =
  PageAlert page_alert
  | ViewAlert view_alert
  | Api api_call bool
  | SetScheduleNeedsRecalculation bool
  | SetIsCalculatingSchedule bool
  | LoadProjectData
  | ReloadTasks
  | LoadData

text \<open>
  The value of the state variable \<open>scheduleNeedsRecalculation\<close> once the effects of a
  handler have run.
\<close>

fun flagAfter :: "page_effect list \<Rightarrow> bool \<Rightarrow> bool" where
  "flagAfter [] flag = flag"
| "flagAfter (SetScheduleNeedsRecalculation b # es) flag = flagAfter es b"
| "flagAfter (e # es) flag = flagAfter es flag"

definition handleScheduleChange :: "page_effect list" where
  "handleScheduleChange = [SetScheduleNeedsRecalculation True]"

text \<open>
  \<open>handleCalculateSchedule\<close>; \<open>result\<close> is the resolved value of
  \<open>scheduleAPI.calculateSchedule\<close>, \<open>None\<close> when the promise rejects. The completion
  alert shows \<open>result.total_duration\<close> as days and \<open>result.critical_path.length\<close> as a
  number of tasks.
\<close>

definition handleCalculateSchedule :: "ScheduleCalculationResult option \<Rightarrow> page_effect list" where
  "handleCalculateSchedule result =
     SetIsCalculatingSchedule True
     # (case result of
          Some r \<Rightarrow>
            [Api ScheduleCalculate True, LoadProjectData, SetScheduleNeedsRecalculation False,
             PageAlert (RecalculationCompletedAlert (total_duration r)
                          (length (critical_path r)))]
        | None \<Rightarrow> [Api ScheduleCalculate False, PageAlert RecalculationFailedAlert])
     @ [SetIsCalculatingSchedule False]"

definition handleCreateTask :: "nat list \<Rightarrow> bool \<Rightarrow> page_effect list" where
  "handleCreateTask taskDescription apiOk =
     Api (TaskCreate taskDescription) apiOk
     # (if apiOk then handleScheduleChange @ [LoadProjectData] else [])"

text \<open>
  The validation \<open>handleEditProject\<close> and \<open>handleCreateProject\<close> start with:
  \<open>!project_name?.trim()\<close>, \<open>!start_date\<close>, \<open>!end_date\<close>, then
  \<open>new Date(start_date) >= new Date(end_date)\<close>.
\<close>

definition validateProjectForm :: "Project \<Rightarrow> page_alert option" where
  "validateProjectForm p =
     (if (case project_name p of None \<Rightarrow> True | Some n \<Rightarrow> trim n = [])
        then Some ProjectNameRequiredAlert
      else (case project_start_date p of
              None \<Rightarrow> Some StartDateRequiredAlert
            | Some startDate \<Rightarrow>
                (case project_end_date p of
                   None \<Rightarrow> Some EndDateRequiredAlert
                 | Some endDate \<Rightarrow>
                     if startDate \<ge> endDate then Some EndNotAfterStartAlert else None)))"

text \<open>
  \<open>handleEditProject\<close>; \<open>project\<close> is the loaded project (\<open>project?.start_date\<close> is
  undefined while none is loaded).
\<close>

definition handleEditProject :: "Project \<Rightarrow> Project option \<Rightarrow> bool \<Rightarrow> page_effect list" where
  "handleEditProject editProject project apiOk =
     (case validateProjectForm editProject of
        Some a \<Rightarrow> [PageAlert a]
      | None \<Rightarrow>
          Api (ProjectUpdate editProject) apiOk
          # (if apiOk then
               (if project_start_date editProject
                     \<noteq> (case project of None \<Rightarrow> None | Some p \<Rightarrow> project_start_date p)
                   \<or> project_end_date editProject
                     \<noteq> (case project of None \<Rightarrow> None | Some p \<Rightarrow> project_end_date p)
                then handleScheduleChange else [])
               @ [LoadProjectData]
             else [PageAlert ProjectUpdateFailedAlert]))"

subsection \<open>Members and their workload\<close>

record EmployeeWithWorkload = Employee +
  total_allocation :: rat
  remaining_capacity :: rat

text \<open>
  \<open>employeesWithWorkload\<close> (and \<open>calculateEmployeeWorkloads\<close> of the project list, the
  same computation): \<open>member.allocation_ratio || 0\<close> summed over the memberships of the
  employee, and \<open>Math.max(0, 1.0 - totalAllocation)\<close>.
\<close>

definition totalAllocation :: "ProjectMember list \<Rightarrow> int \<Rightarrow> rat" where
  "totalAllocation allMembers employeeId =
     foldl (+) 0
       (map (\<lambda>member. case allocation_ratio member of None \<Rightarrow> 0 | Some r \<Rightarrow> r)
          (filter (\<lambda>member. member_employee_id member = employeeId) allMembers))"

definition employeesWithWorkload ::
  "Employee list \<Rightarrow> ProjectMember list \<Rightarrow> EmployeeWithWorkload list" where
  "employeesWithWorkload employees allMembers =
     map (\<lambda>employee.
            \<lparr>employee_id = employee_id employee, employee_name = employee_name employee,
             total_allocation = totalAllocation allMembers (employee_id employee),
             remaining_capacity =
               max 0 (1 - totalAllocation allMembers (employee_id employee))\<rparr>)
         employees"

text \<open>
  The add-member form; \<open>new_employee_id\<close> is \<open>Number(newMember.employee_id)\<close>.
\<close>

record NewMember =
  new_employee_id :: int
  new_allocation_ratio :: rat

definition handleAddMember ::
  "Employee list \<Rightarrow> ProjectMember list \<Rightarrow> NewMember \<Rightarrow> bool \<Rightarrow> page_effect list" where
  "handleAddMember employees allMembers newMember apiOk =
     (let employee = find (\<lambda>e. employee_id e = new_employee_id newMember)
                       (employeesWithWorkload employees allMembers)
      in if (case employee of
               None \<Rightarrow> False
             | Some e \<Rightarrow> new_allocation_ratio newMember > remaining_capacity e)
         then [PageAlert (CapacityExceededAlert (new_employee_id newMember))]
         else Api (MemberAdd (new_employee_id newMember) (new_allocation_ratio newMember)) apiOk
              # (if apiOk then [LoadProjectData] else [PageAlert MemberAddFailedAlert]))"

definition handleRemoveMember :: "int \<Rightarrow> bool \<Rightarrow> bool \<Rightarrow> page_effect list" where
  "handleRemoveMember employeeId confirmed apiOk =
     (if confirmed then
        Api (MemberRemove employeeId) apiOk # (if apiOk then [LoadProjectData] else [])
      else [])"

text \<open>
  \<open>onUpdateMember\<close>, the prop of the members table; \<open>updates\<close> is a
  \<open>Partial<ProjectMember>\<close>, of which the handler reads \<open>allocation_ratio\<close>.
\<close>

definition onUpdateMember :: "int \<Rightarrow> rat option \<Rightarrow> bool \<Rightarrow> page_effect list" where
  "onUpdateMember employeeId updates_allocation_ratio apiOk =
     Api (MemberUpdate employeeId updates_allocation_ratio) apiOk
     # (if apiOk then
          (if updates_allocation_ratio \<noteq> None then handleScheduleChange else [])
          @ [LoadProjectData]
        else [PageAlert MemberUpdateFailedAlert])"

subsection \<open>The task views inside the page\<close>

text \<open>
  The props the page passes to \<open>WBSView\<close> and \<open>PERTChart\<close>:
  \<open>onScheduleChange={handleScheduleChange}\<close>, \<open>onUpdateTask={handleUpdateTask}\<close>,
  \<open>onCreateTask={handleCreateTask}\<close> and
  \<open>onCreateDependency={async dep => { await taskAPI.createDependency(dep) }}\<close>.
  \<open>apiOk\<close> is the outcome of the request a callback sends.
\<close>

fun wire :: "bool \<Rightarrow> view_effect \<Rightarrow> page_effect list" where
  "wire apiOk (Alert a) = [ViewAlert a]"
| "wire apiOk (TaskAPI c ok) = [Api c ok]"
| "wire apiOk (OnCreateTask d) = handleCreateTask d apiOk"
| "wire apiOk (OnCreateDependency d) = [Api (DependencyCreate d) apiOk]"
| "wire apiOk OnScheduleChange = handleScheduleChange"
| "wire apiOk OnUpdateTask = [ReloadTasks]"

text \<open>
  The operations a user performs on the project screen that send a task, dependency,
  membership, project or recalculation request, each with the inputs of its handler.
\<close>

datatype operation =
  WbsStatusUpdate int bool
  | WbsCreateTask NewTask bool
  | WbsSaveTask "WBSTask option" EditData bool
  | PertConnect "WBSTask list" dependency_type Connection bool
  | PertEdgeClick int int bool bool
  | PertNodeDragStop int bool
  | PertCreateTask NewTask bool
  | PertSave WBSTask EditData bool
  | EditProject Project "Project option" bool
  | AddMember "Employee list" "ProjectMember list" NewMember bool
  | RemoveMember int bool bool
  | UpdateMember int "rat option" bool
  | CalculateSchedule "ScheduleCalculationResult option"

fun perform :: "operation \<Rightarrow> page_effect list" where
  "perform (WbsStatusUpdate taskId ok) = concat (map (wire ok) (wbs_handleStatusUpdate taskId ok))"
| "perform (WbsCreateTask newTask ok) = concat (map (wire ok) (wbs_handleCreateTask newTask ok))"
| "perform (WbsSaveTask selectedTask editData ok) =
     concat (map (wire ok) (wbs_handleSaveTask selectedTask editData ok))"
| "perform (PertConnect ts dependencyType params ok) =
     concat (map (wire ok) (onConnect ts dependencyType ok params))"
| "perform (PertEdgeClick sourceId targetId confirmed ok) =
     concat (map (wire ok) (onEdgeClick sourceId targetId confirmed ok))"
| "perform (PertNodeDragStop nodeId ok) = concat (map (wire ok) (onNodeDragStop nodeId ok))"
| "perform (PertCreateTask newTask ok) = concat (map (wire ok) (pert_handleCreateTask newTask))"
| "perform (PertSave t editData ok) = concat (map (wire ok) (pert_handleSave t editData ok))"
| "perform (EditProject editProject project ok) = handleEditProject editProject project ok"
| "perform (AddMember employees allMembers newMember ok) =
     handleAddMember employees allMembers newMember ok"
| "perform (RemoveMember employeeId confirmed ok) = handleRemoveMember employeeId confirmed ok"
| "perform (UpdateMember employeeId ratio ok) = onUpdateMember employeeId ratio ok"
| "perform (CalculateSchedule result) = handleCalculateSchedule result"

text \<open>
  The requests after which the handlers of the screen raise the flag: creating a task,
  updating its status or its details, creating or deleting a dependency, and updating a
  member with an allocation ratio.
\<close>

fun scheduleRelevant :: "api_call \<Rightarrow> bool" where
  "scheduleRelevant (TaskCreate d) = True"
| "scheduleRelevant (TaskUpdateStatus i) = True"
| "scheduleRelevant (TaskUpdateDetails i d) = True"
| "scheduleRelevant (DependencyCreate d) = True"
| "scheduleRelevant (DependencyDelete i j) = True"
| "scheduleRelevant (MemberUpdate i (Some r)) = True"
| "scheduleRelevant c = False"

definition staff :: "Employee list" where
  "staff = [\<lparr>employee_id = 1, employee_name = ''Tanaka''\<rparr>,
            \<lparr>employee_id = 2, employee_name = ''Sato''\<rparr>]"

subsection \<open>Claims on the recalculation flag\<close>

text \<open>
  Claim C2 as stated fails for membership: adding a member sends the request and
  reloads the data, and the flag stays as it was.
\<close>

theorem add_member_leaves_flag_counterexample:
  "perform (AddMember staff [] \<lparr>new_employee_id = 1, new_allocation_ratio = 1 / 2\<rparr> True)
     = [Api (MemberAdd 1 (1 / 2)) True, LoadProjectData]
   \<and> flagAfter
         (perform (AddMember staff [] \<lparr>new_employee_id = 1, new_allocation_ratio = 1 / 2\<rparr> True))
         False
       = False"
  by (simp add: handleAddMember_def employeesWithWorkload_def totalAllocation_def staff_def)

lemma flagAfter_append:
  "flagAfter (xs @ ys) flag = flagAfter ys (flagAfter xs flag)"
  by (induction xs flag rule: flagAfter.induct) auto

lemmas handler_defs =
  wbs_handleStatusUpdate_def wbs_handleCreateTask_def wbs_handleSaveTask_def
  onConnect_def onEdgeClick_def onNodeDragStop_def pert_handleCreateTask_def
  pert_handleSave_def handleEditProject_def handleAddMember_def handleRemoveMember_def
  onUpdateMember_def handleCalculateSchedule_def handleCreateTask_def
  handleScheduleChange_def

lemma relevant_raises_flag:
  assumes "Api c True \<in> set (perform op)" and "scheduleRelevant c"
  shows "flagAfter (perform op) flag = True"
  using assms
  by (cases op)
     (auto simp: handler_defs Let_def split: option.splits if_splits prod.splits)

lemma only_recalculation_clears_flag:
  "SetScheduleNeedsRecalculation False \<in> set (perform op)
     \<longleftrightarrow> (\<exists>r. op = CalculateSchedule (Some r))"
  by (cases op)
     (auto simp: handler_defs Let_def split: option.splits if_splits prod.splits)

lemma membership_leaves_flag:
  "flagAfter (perform (AddMember employees allMembers newMember ok)) flag = flag"
  "flagAfter (perform (RemoveMember employeeId confirmed ok)) flag = flag"
  "flagAfter (perform (PertNodeDragStop nodeId ok)) flag = flag"
  by (auto simp: handler_defs Let_def split: option.splits)

lemma flag_cleared_iff:
  "flag \<Longrightarrow> \<not> flagAfter (perform op) flag \<longleftrightarrow> (\<exists>r. op = CalculateSchedule (Some r))"
  by (cases op)
     (auto simp: handler_defs Let_def split: option.splits if_splits prod.splits)

text \<open>
  Claim C2, amended. On the project screen a request that creates a task, updates its
  status or details, creates or deletes a dependency, or updates a member with an
  allocation ratio raises the flag when it succeeds; adding a member and saving a node
  position leave the flag as it is; and a raised flag is lowered by an operation exactly
  when that operation is a schedule recalculation whose request succeeds, so a failed
  recalculation leaves it raised.
\<close>

theorem recalculation_flag:
  "(\<forall>c. Api c True \<in> set (perform op) \<longrightarrow> scheduleRelevant c \<longrightarrow> flagAfter (perform op) flag)
   \<and> flagAfter (perform (AddMember employees allMembers newMember ok)) flag = flag
   \<and> flagAfter (perform (PertNodeDragStop nodeId ok)) flag = flag
   \<and> (\<not> flagAfter (perform op) True \<longleftrightarrow> (\<exists>r. op = CalculateSchedule (Some r)))"
  using relevant_raises_flag[of _ op flag] flag_cleared_iff[of True op]
  by (simp add: membership_leaves_flag del: perform.simps)

theorem recalculation_flag_witness:
  "flagAfter (perform (WbsStatusUpdate 7 True)) False
   \<and> flagAfter (perform (CalculateSchedule None)) True
   \<and> \<not> flagAfter (perform (CalculateSchedule
           (Some \<lparr>result_tasks = [], critical_path = [], total_duration = 0\<rparr>))) True"
proof -
  have api: "Api (TaskUpdateStatus 7) True \<in> set (perform (WbsStatusUpdate 7 True))"
    by (simp add: wbs_handleStatusUpdate_def)
  have rel: "scheduleRelevant (TaskUpdateStatus 7)"
    by simp
  from recalculation_flag[of "WbsStatusUpdate 7 True" False] api rel
  have 1: "flagAfter (perform (WbsStatusUpdate 7 True)) False"
    by blast
  from recalculation_flag[of "CalculateSchedule None"]
  have 2: "flagAfter (perform (CalculateSchedule None)) True"
    by blast
  from recalculation_flag[of "CalculateSchedule
         (Some \<lparr>result_tasks = [], critical_path = [], total_duration = 0\<rparr>)"]
  have 3: "\<not> flagAfter (perform (CalculateSchedule
              (Some \<lparr>result_tasks = [], critical_path = [], total_duration = 0\<rparr>))) True"
    by blast
  from 1 2 3 show ?thesis by simp
qed

section \<open>Project creation (ProjectList page)\<close>

text \<open>
  The creation form holds the project fields, the selected employees in the order they
  were ticked, and \<open>memberAllocations\<close>, a \<open>Record<number, MemberAllocation>\<close>.
\<close>

record MemberAllocation =
  ma_employee_id :: int
  ma_allocation_ratio :: rat

datatype check_result = CheckPassed | CheckExceeded int | CheckThrew

text \<open>
  The loop that checks the workload of each selected member. When the employee has a
  workload entry the allocation is read; an absent entry of \<open>memberAllocations\<close> is
  \<open>undefined\<close> and reading its field throws, which the handler's \<open>catch\<close> receives.
\<close>

fun checkMembers ::
  "EmployeeWithWorkload list \<Rightarrow> (int \<rightharpoonup> MemberAllocation) \<Rightarrow> int list \<Rightarrow> check_result" where
  "checkMembers workloads memberAllocations [] = CheckPassed"
| "checkMembers workloads memberAllocations (employeeId # rest) =
     (case find (\<lambda>w. employee_id w = employeeId) workloads of
        None \<Rightarrow> checkMembers workloads memberAllocations rest
      | Some workload \<Rightarrow>
          (case memberAllocations employeeId of
             None \<Rightarrow> CheckThrew
           | Some allocation \<Rightarrow>
               if ma_allocation_ratio allocation > remaining_capacity workload
               then CheckExceeded employeeId
               else checkMembers workloads memberAllocations rest))"

text \<open>\<open>allocation.allocation_ratio || 0.1\<close>, the ratio the add-member request carries.\<close>

definition sentRatio :: "MemberAllocation \<Rightarrow> rat" where
  "sentRatio allocation =
     (if ma_allocation_ratio allocation = 0 then 1 / 10 else ma_allocation_ratio allocation)"

text \<open>
  The loop that adds the members once the project exists, followed by the reset of the
  form and \<open>loadData()\<close>. \<open>addOk\<close> tells for each employee whether the request succeeds;
  a failure leaves the loop for the \<open>catch\<close> block.
\<close>

fun addMembers ::
  "(int \<rightharpoonup> MemberAllocation) \<Rightarrow> (int \<Rightarrow> bool) \<Rightarrow> int list \<Rightarrow> page_effect list" where
  "addMembers memberAllocations addOk [] = [LoadData]"
| "addMembers memberAllocations addOk (employeeId # rest) =
     (case memberAllocations employeeId of
        None \<Rightarrow> [PageAlert ProjectCreateFailedAlert]
      | Some allocation \<Rightarrow>
          Api (MemberAdd employeeId (sentRatio allocation)) (addOk employeeId)
          # (if addOk employeeId then addMembers memberAllocations addOk rest
             else [PageAlert ProjectCreateFailedAlert]))"

definition handleCreateProject ::
  "Project \<Rightarrow> int list \<Rightarrow> (int \<rightharpoonup> MemberAllocation) \<Rightarrow> Employee list \<Rightarrow> ProjectMember list
     \<Rightarrow> bool \<Rightarrow> (int \<Rightarrow> bool) \<Rightarrow> page_effect list" where
  "handleCreateProject newProject selectedMembers memberAllocations employees allMembers
       createOk addOk =
     (case validateProjectForm newProject of
        Some a \<Rightarrow> [PageAlert a]
      | None \<Rightarrow>
          (case checkMembers (employeesWithWorkload employees allMembers) memberAllocations
                  selectedMembers of
             CheckExceeded employeeId \<Rightarrow> [PageAlert (CapacityExceededAlert employeeId)]
           | CheckThrew \<Rightarrow> [PageAlert ProjectCreateFailedAlert]
           | CheckPassed \<Rightarrow>
               Api (ProjectCreate newProject) createOk
               # (if createOk then addMembers memberAllocations addOk selectedMembers
                  else [PageAlert ProjectCreateFailedAlert])))"

subsection \<open>Claims on the project window\<close>

text \<open>The window a request carries is positive: both dates present, start before end.\<close>

definition windowOk :: "Project \<Rightarrow> bool" where
  "windowOk p =
     (case project_start_date p of
        None \<Rightarrow> False
      | Some s \<Rightarrow> (case project_end_date p of None \<Rightarrow> False | Some e \<Rightarrow> s < e))"

lemma validateProjectForm_window:
  "\<not> windowOk p \<Longrightarrow> \<exists>a. validateProjectForm p = Some a"
  by (auto simp: windowOk_def validateProjectForm_def split: option.splits)

text \<open>
  Claim C9. A project edit or create request whose form lacks the start date, lacks the
  end date, or has a start date that is not strictly earlier than the end date ends in
  one alert and sends no request.
\<close>

theorem project_window_required:
  assumes "\<not> windowOk p"
  shows "(\<exists>a. handleEditProject p project apiOk = [PageAlert a])
         \<and> (\<exists>a. handleCreateProject p selectedMembers memberAllocations employees allMembers
                    createOk addOk = [PageAlert a])
         \<and> (\<forall>c ok. Api c ok \<notin> set (handleEditProject p project apiOk))
         \<and> (\<forall>c ok. Api c ok \<notin> set (handleCreateProject p selectedMembers memberAllocations
                                        employees allMembers createOk addOk))"
proof -
  from validateProjectForm_window[OF assms] obtain a where "validateProjectForm p = Some a" ..
  then show ?thesis
    by (simp add: handleEditProject_def handleCreateProject_def)
qed

theorem project_window_required_witness:
  "handleEditProject
     \<lparr>project_name = Some (js ''Shop''), project_start_date = Some 20, project_end_date = Some 20\<rparr>
     None True = [PageAlert EndNotAfterStartAlert]
   \<and> handleCreateProject
     \<lparr>project_name = Some (js ''Shop''), project_start_date = Some 20, project_end_date = None\<rparr>
     [] Map.empty staff [] True (\<lambda>i. True) = [PageAlert EndDateRequiredAlert]"
proof -
  let ?p = "\<lparr>project_name = Some (js ''Shop''), project_start_date = Some 20,
              project_end_date = Some (20 :: int)\<rparr>"
  let ?q = "\<lparr>project_name = Some (js ''Shop''), project_start_date = Some 20,
              project_end_date = None :: int option\<rparr>"
  have np: "\<not> windowOk ?p" and nq: "\<not> windowOk ?q"
    by (simp_all add: windowOk_def)
  have vp: "validateProjectForm ?p = Some EndNotAfterStartAlert"
    and vq: "validateProjectForm ?q = Some EndDateRequiredAlert"
    by (simp_all add: validateProjectForm_def trim_def js_def isWhiteSpace_def)
  from project_window_required[OF np, of None True] vp
  have "handleEditProject ?p None True = [PageAlert EndNotAfterStartAlert]"
    by (auto simp: handleEditProject_def)
  moreover from project_window_required[OF nq, of None True "[]" Map.empty staff "[]" True "\<lambda>i. True"] vq
  have "handleCreateProject ?q [] Map.empty staff [] True (\<lambda>i. True)
          = [PageAlert EndDateRequiredAlert]"
    by (auto simp: handleCreateProject_def)
  ultimately show ?thesis by simp
qed

subsection \<open>Claims on member allocation\<close>

lemma workload_entry:
  assumes "find (\<lambda>e. employee_id e = i) (employeesWithWorkload employees allMembers) = Some e"
  shows "employee_id e = i"
    and "total_allocation e = totalAllocation allMembers i"
    and "remaining_capacity e = max 0 (1 - totalAllocation allMembers i)"
  using find_Some_mem[OF assms] by (auto simp: employeesWithWorkload_def)

lemma workload_entry_exists:
  assumes "i \<in> employee_id ` set employees"
  shows "\<exists>e. find (\<lambda>e. employee_id e = i) (employeesWithWorkload employees allMembers) = Some e"
proof -
  from assms have "\<exists>e \<in> set (employeesWithWorkload employees allMembers). employee_id e = i"
    by (auto simp: employeesWithWorkload_def)
  then show ?thesis
    by (cases "find (\<lambda>e. employee_id e = i) (employeesWithWorkload employees allMembers)")
       (auto simp: find_None_iff)
qed

text \<open>
  The add-member form of the project screen: a listed employee whose requested ratio
  exceeds the remaining capacity \<open>max(0, 1 - total)\<close> gets the alert and no request is
  sent; a request that is sent carries the requested ratio and keeps the total of a
  listed employee at or below the larger of 1 and the previous total.
\<close>

lemma handleAddMember_rejects:
  assumes "new_employee_id newMember \<in> employee_id ` set employees"
    and "new_allocation_ratio newMember
           > max 0 (1 - totalAllocation allMembers (new_employee_id newMember))"
  shows "handleAddMember employees allMembers newMember apiOk
           = [PageAlert (CapacityExceededAlert (new_employee_id newMember))]"
proof -
  from workload_entry_exists[OF assms(1), of allMembers] obtain e where
    e: "find (\<lambda>e. employee_id e = new_employee_id newMember)
          (employeesWithWorkload employees allMembers) = Some e" ..
  from workload_entry(3)[OF e] assms(2) e show ?thesis
    by (simp add: handleAddMember_def)
qed

lemma handleAddMember_within_capacity:
  assumes "Api (MemberAdd i r) ok \<in> set (handleAddMember employees allMembers newMember apiOk)"
    and "i \<in> employee_id ` set employees"
  shows "totalAllocation allMembers i + r \<le> max 1 (totalAllocation allMembers i)"
proof -
  from assms(1) have ir: "i = new_employee_id newMember" "r = new_allocation_ratio newMember"
    by (auto simp: handleAddMember_def Let_def split: if_splits)
  from workload_entry_exists[OF assms(2), of allMembers] obtain e where
    e: "find (\<lambda>e. employee_id e = i) (employeesWithWorkload employees allMembers) = Some e" ..
  from assms(1) e ir have "\<not> r > remaining_capacity e"
    by (auto simp: handleAddMember_def Let_def split: if_splits)
  with workload_entry(3)[OF e] show ?thesis
    by (auto simp: max_def split: if_splits)
qed

text \<open>
  The creation form: when the check loop meets a listed employee whose allocation
  exceeds the remaining capacity, no request is sent.
\<close>

lemma checkMembers_exceeded_no_request:
  assumes "checkMembers (employeesWithWorkload employees allMembers) memberAllocations
             selectedMembers = CheckExceeded i"
  shows "\<forall>c ok. Api c ok \<notin> set (handleCreateProject newProject selectedMembers
                                    memberAllocations employees allMembers createOk addOk)"
  using assms by (simp add: handleCreateProject_def split: option.splits)

lemma checkMembers_passed:
  assumes "checkMembers workloads memberAllocations selectedMembers = CheckPassed"
    and "i \<in> set selectedMembers"
    and "find (\<lambda>w. employee_id w = i) workloads = Some w"
  shows "\<exists>a. memberAllocations i = Some a \<and> ma_allocation_ratio a \<le> remaining_capacity w"
  using assms
  by (induction selectedMembers) (auto split: option.splits if_splits)

definition shop :: Project where
  "shop = \<lparr>project_name = Some (js ''Shop''), project_start_date = Some 10,
           project_end_date = Some 20\<rparr>"

definition fullyBooked :: "ProjectMember list" where
  "fullyBooked = [\<lparr>member_project_id = 1, member_employee_id = 1, allocation_ratio = Some 1\<rparr>]"

text \<open>
  Claim C8. The check of the creation form reads the ratio held in the form, but the
  request carries \<open>allocation.allocation_ratio || 0.1\<close>. Employee 1 is fully allocated
  (total 1, remaining capacity 0). Ticking the employee and setting the ratio field to 0
  passes the check, since 0 does not exceed 0; the project is created and the add-member
  request carries the ratio 0.1, which exceeds the remaining capacity and brings the
  employee's total to 1.1.
\<close>

theorem create_project_overallocates:
  "handleCreateProject shop [1] [1 \<mapsto> \<lparr>ma_employee_id = 1, ma_allocation_ratio = 0\<rparr>]
       staff fullyBooked True (\<lambda>i. True)
     = [Api (ProjectCreate shop) True, Api (MemberAdd 1 (1 / 10)) True, LoadData]
   \<and> map remaining_capacity (employeesWithWorkload staff fullyBooked) = [0, 1]
   \<and> totalAllocation
         (fullyBooked
            @ [\<lparr>member_project_id = 2, member_employee_id = 1, allocation_ratio = Some (1 / 10)\<rparr>])
         1
       = 11 / 10"
  by (simp add: handleCreateProject_def validateProjectForm_def shop_def trim_def js_def
      isWhiteSpace_def employeesWithWorkload_def totalAllocation_def staff_def fullyBooked_def
      sentRatio_def)

section \<open>Schedule calculation engine\<close>

text \<open>
  The engine runs in the backend, whose code is not among the frontend sources; the
  frontend only calls it (\<open>scheduleAPI.calculateSchedule\<close>). Its calendar, dependency
  graph, forward scheduler and session are modelled from sections 3 and 4 of the
  specification. A date is a day number, day 0 being a Monday; Saturday and Sunday are
  the days 5 and 6 of each week.
\<close>

text \<open>
  Modelled from the spec: the engine's input, missing from the sources: a task with its
  identity, estimated effort in person-days, optional earliest-allowed-start, optional
  deadline, resolved allocation ratio (\<open>None\<close> for "unassigned") and milestone flag; a
  dependency as an ordered pair with one of the four relation kinds; and the failures
  of a request.
\<close>

record SchedTask =
  st_id :: int
  effort :: rat
  earliest_allowed_start :: "int option"
  task_deadline :: "int option"
  resolved_ratio :: "rat option"
  is_milestone :: bool

record Dependency =
  predecessor :: int
  successor :: int
  relation_kind :: dependency_type

datatype engine_error = CyclicDependency "int list" | InvalidInput | InvalidAllocation

subsection \<open>Calendar\<close>

text \<open>
  Modelled from the spec: the Calendar's notion of a working day, missing from the
  sources: "Saturday and Sunday are the only non-working days modeled".
\<close>

definition isWorkingDay :: "int \<Rightarrow> bool" where
  "isWorkingDay d \<longleftrightarrow> d mod 7 < 5"

text \<open>
  Modelled from the spec: one step of the Calendar's \<open>advance\<close>, missing from the sources:
  the next working day after a date, "stepping across a weekend consumes zero working-day
  credit for the weekend itself".
\<close>

definition stepForward :: "int \<Rightarrow> int" where
  "stepForward d =
     (if isWorkingDay (d + 1) then d + 1
      else if isWorkingDay (d + 2) then d + 2
      else d + 3)"

text \<open>
  Modelled from the spec: one step of the Calendar's \<open>retreat\<close>, "the mirror operation",
  missing from the sources.
\<close>

definition stepBack :: "int \<Rightarrow> int" where
  "stepBack d =
     (if isWorkingDay (d - 1) then d - 1
      else if isWorkingDay (d - 2) then d - 2
      else d - 3)"

text \<open>
  Modelled from the spec: \<open>workingDaysNeeded(effort, allocationRatio)\<close>, missing from the
  sources: "\<open>ceil(effort / allocationRatio)\<close>, minimum 1 ... fails with an
  \<open>InvalidAllocation\<close> condition if ratio \<le> 0".
\<close>

definition workingDaysNeeded :: "rat \<Rightarrow> rat \<Rightarrow> engine_error + nat" where
  "workingDaysNeeded eff ratio =
     (if ratio \<le> 0 then Inl InvalidAllocation
      else Inr (max 1 (nat \<lceil>eff / ratio\<rceil>)))"

text \<open>
  Modelled from the spec: \<open>advance(date, workingDays)\<close>, missing from the sources:
  "the date reached by stepping forward \<open>workingDays - 1\<close> working days from \<open>date\<close>
  (i.e., a 1-day task starting on \<open>date\<close> also ends on \<open>date\<close>)".
\<close>

definition advance :: "int \<Rightarrow> nat \<Rightarrow> int" where
  "advance date workingDays = (stepForward ^^ (workingDays - 1)) date"

text \<open>Modelled from the spec: \<open>retreat\<close>, the mirror of \<open>advance\<close>, missing from the sources.\<close>

definition retreat :: "int \<Rightarrow> nat \<Rightarrow> int" where
  "retreat date workingDays = (stepBack ^^ (workingDays - 1)) date"

subsection \<open>Dependency graph\<close>

text \<open>
  Modelled from the spec: readiness of a task in the traversal of the Dependency Graph,
  missing from the sources: every predecessor of the task is already placed.
\<close>

definition ready :: "Dependency list \<Rightarrow> int list \<Rightarrow> int \<Rightarrow> bool" where
  "ready deps placed i \<longleftrightarrow> (\<forall>d \<in> set deps. successor d = i \<longrightarrow> predecessor d \<in> set placed)"

text \<open>
  Modelled from the spec: the loop of \<open>topologicalOrder\<close>, missing from the sources:
  Kahn's algorithm, "tie-break ... among tasks with equal readiness: ascending task
  identity"; "if any task cannot be placed ... fails with \<open>CyclicDependency\<close>". The
  remaining tasks are kept in ascending order and \<open>placed\<close> holds the placed ones, the
  latest first.
\<close>

function kahn :: "Dependency list \<Rightarrow> int list \<Rightarrow> int list \<Rightarrow> engine_error + int list" where
  "kahn deps placed [] = Inr (rev placed)"
| "kahn deps placed (r # rs) =
     (case find (ready deps placed) (r # rs) of
        None \<Rightarrow> Inl (CyclicDependency (r # rs))
      | Some i \<Rightarrow> kahn deps (i # placed) (remove1 i (r # rs)))"
  by pat_completeness auto

termination kahn
proof (relation "measure (\<lambda>(deps, placed, remaining). length remaining)")
  show "wf (measure (\<lambda>(deps, placed, remaining). length remaining))"
    by simp
next
  fix deps :: "Dependency list" and placed :: "int list" and r :: int and rs :: "int list"
    and i :: int
  assume "find (ready deps placed) (r # rs) = Some i"
  then have "i \<in> set (r # rs)"
    by (rule find_Some_mem[THEN conjunct1])
  then have "length (remove1 i (r # rs)) < length (r # rs)"
    by (simp only: length_remove1) simp
  then show "((deps, i # placed, remove1 i (r # rs)), (deps, placed, r # rs))
               \<in> measure (\<lambda>(deps, placed, remaining). length remaining)"
    by simp
qed

text \<open>
  Modelled from the spec: \<open>topologicalOrder\<close> of the Dependency Graph, missing from the
  sources; the nodes of the graph are the task identities.
\<close>

definition topologicalOrder :: "SchedTask list \<Rightarrow> Dependency list \<Rightarrow> engine_error + int list" where
  "topologicalOrder ts deps = kahn deps [] (sort (remdups (map st_id ts)))"

subsection \<open>Forward scheduler\<close>

text \<open>
  Modelled from the spec: the working days a task needs, missing from the sources:
  "milestones are zero-duration tasks: effort treated as 0"; "unassigned tasks ... are
  scheduled using an allocation ratio of 1.0".
\<close>

definition taskWorkingDays :: "SchedTask \<Rightarrow> engine_error + nat" where
  "taskWorkingDays t =
     workingDaysNeeded (if is_milestone t then 0 else effort t)
       (case resolved_ratio t of None \<Rightarrow> 1 | Some r \<Rightarrow> r)"

text \<open>
  Modelled from the spec: the lower bound one incoming edge puts on the successor's
  start, missing from the sources: FS "\<open>successor.start >= predecessor.end + 1 working
  day\<close>", SS "\<open>successor.start >= predecessor.start\<close>", FF and SF translated into a
  required start through the Calendar. \<open>None\<close> when the predecessor has no dates yet.
\<close>

definition lowerBound ::
  "(int \<rightharpoonup> int \<times> int) \<Rightarrow> nat \<Rightarrow> Dependency \<Rightarrow> int option" where
  "lowerBound dates n d =
     (case dates (predecessor d) of
        None \<Rightarrow> None
      | Some (pStart, pEnd) \<Rightarrow>
          Some (case relation_kind d of
                  FS \<Rightarrow> stepForward pEnd
                | SS \<Rightarrow> pStart
                | FF \<Rightarrow> retreat pEnd n
                | SF \<Rightarrow> retreat pStart n))"

text \<open>
  Modelled from the spec: the dates of one task, missing from the sources: "a task's
  final \<open>start_date\<close> is the maximum of: the above dependency-imposed lower bounds, its
  own earliest-allowed-start constraint, and (if no earlier lower bound applies) the
  schedule epoch. Its \<open>end_date\<close> is then \<open>advance(start_date, workingDaysNeeded(effort,
  allocationRatio))\<close>".
\<close>

definition scheduleTask ::
  "int \<Rightarrow> Dependency list \<Rightarrow> (int \<rightharpoonup> int \<times> int) \<Rightarrow> SchedTask \<Rightarrow> engine_error + int \<times> int" where
  "scheduleTask epoch deps dates t =
     (case taskWorkingDays t of
        Inl e \<Rightarrow> Inl e
      | Inr n \<Rightarrow>
          let incoming = filter (\<lambda>d. successor d = st_id t) deps;
              bounds = map (lowerBound dates n) incoming
          in if None \<in> set bounds then Inl InvalidInput
             else (case map the bounds
                          @ (case earliest_allowed_start t of None \<Rightarrow> [] | Some e \<Rightarrow> [e]) of
                     [] \<Rightarrow> Inr (epoch, advance epoch n)
                   | c # cs \<Rightarrow> Inr (fold max cs c, advance (fold max cs c) n)))"

text \<open>
  Modelled from the spec: the Forward Scheduler, missing from the sources: "walking the
  topological order once".
\<close>

fun forwardSchedule ::
  "int \<Rightarrow> SchedTask list \<Rightarrow> Dependency list \<Rightarrow> int list \<Rightarrow> (int \<rightharpoonup> int \<times> int)
     \<Rightarrow> engine_error + (int \<rightharpoonup> int \<times> int)" where
  "forwardSchedule epoch ts deps [] dates = Inr dates"
| "forwardSchedule epoch ts deps (i # order) dates =
     (case find (\<lambda>t. st_id t = i) ts of
        None \<Rightarrow> Inl InvalidInput
      | Some t \<Rightarrow>
          (case scheduleTask epoch deps dates t of
             Inl e \<Rightarrow> Inl e
           | Inr se \<Rightarrow> forwardSchedule epoch ts deps order (dates(i \<mapsto> se))))"

subsection \<open>Schedule session\<close>

text \<open>
  Modelled from the spec: the \<open>Validating\<close> state of the Schedule Session, missing from the
  sources: "rejects dependencies referencing unknown tasks, rejects self-referential
  dependencies", and \<open>InvalidInput\<close> for "non-positive effort, non-positive allocation
  ratio".
\<close>

definition validate :: "SchedTask list \<Rightarrow> Dependency list \<Rightarrow> engine_error option" where
  "validate ts deps =
     (if \<exists>d \<in> set deps. predecessor d \<notin> st_id ` set ts \<or> successor d \<notin> st_id ` set ts
        then Some InvalidInput
      else if \<exists>d \<in> set deps. predecessor d = successor d then Some InvalidInput
      else if \<exists>t \<in> set ts. \<not> is_milestone t \<and> effort t \<le> 0 then Some InvalidInput
      else if \<exists>t \<in> set ts. case resolved_ratio t of None \<Rightarrow> False | Some r \<Rightarrow> r \<le> 0
        then Some InvalidInput
      else None)"

text \<open>
  Modelled from the spec: the Schedule Session up to the end of \<open>Scheduling\<close>, missing from
  the sources: an empty task set gives the empty schedule, a failed validation or a
  cycle aborts the request, otherwise the computed dates of the tasks are returned.
  \<open>Extracting\<close> reads the dates and does not change them.
\<close>

definition scheduleSession ::
  "int \<Rightarrow> SchedTask list \<Rightarrow> Dependency list \<Rightarrow> engine_error + (int \<rightharpoonup> int \<times> int)" where
  "scheduleSession epoch ts deps =
     (if ts = [] then Inr Map.empty
      else (case validate ts deps of
              Some e \<Rightarrow> Inl e
            | None \<Rightarrow>
                (case topologicalOrder ts deps of
                   Inl e \<Rightarrow> Inl e
                 | Inr order \<Rightarrow> forwardSchedule epoch ts deps order Map.empty)))"

subsection \<open>The Finish-to-Start invariant\<close>

lemma stepForward_gt: "d < stepForward d"
  by (simp add: stepForward_def)

lemma stepForward_working: "isWorkingDay (stepForward d)"
  unfolding stepForward_def isWorkingDay_def by presburger

lemma fold_max_ge: "x \<in> set (c # cs) \<Longrightarrow> x \<le> fold max cs (c :: int)"
proof -
  assume x: "x \<in> set (c # cs)"
  have "fold max cs c = Max (set (c # cs))"
    by (rule Max.set_eq_fold[symmetric])
  moreover have "x \<le> Max (set (c # cs))"
    using x by (intro Max_ge) simp_all
  ultimately show ?thesis by simp
qed

lemma scheduleTask_FS:
  assumes "scheduleTask epoch deps dates t = Inr (s, e)"
    and "d \<in> set deps" and "successor d = st_id t" and "relation_kind d = FS"
  shows "\<exists>pStart pEnd. dates (predecessor d) = Some (pStart, pEnd) \<and> stepForward pEnd \<le> s"
proof -
  from assms(1) obtain n where n: "taskWorkingDays t = Inr n"
    by (cases "taskWorkingDays t") (auto simp: scheduleTask_def)
  let ?incoming = "filter (\<lambda>d. successor d = st_id t) deps"
  let ?bounds = "map (lowerBound dates n) ?incoming"
  let ?cands = "map the ?bounds
                  @ (case earliest_allowed_start t of None \<Rightarrow> [] | Some e \<Rightarrow> [e])"
  from assms(1) n have none: "None \<notin> set ?bounds"
    by (auto simp: scheduleTask_def Let_def split: if_splits)
  from assms(2,3) have din: "d \<in> set ?incoming" by simp
  with none have "lowerBound dates n d \<noteq> None"
    by (metis image_eqI set_map)
  then obtain pStart pEnd where p: "dates (predecessor d) = Some (pStart, pEnd)"
    by (auto simp: lowerBound_def split: option.splits)
  with assms(4) have "lowerBound dates n d = Some (stepForward pEnd)"
    by (simp add: lowerBound_def)
  with din have "Some (stepForward pEnd) \<in> set ?bounds"
    by (metis image_eqI set_map)
  then have "the (Some (stepForward pEnd)) \<in> set (map the ?bounds)"
    unfolding set_map by (rule imageI)
  then have mem: "stepForward pEnd \<in> set ?cands" by simp
  have "?cands \<noteq> []"
  proof
    assume "?cands = []"
    with mem have "stepForward pEnd \<in> set []" by (simp only:)
    then show False by simp
  qed
  then obtain c cs where ccs: "?cands = c # cs"
    by (auto simp only: neq_Nil_conv)
  with assms(1) n none have "s = fold max cs c"
    by (simp add: scheduleTask_def Let_def)
  moreover from mem ccs have "stepForward pEnd \<in> set (c # cs)"
    by (simp only:)
  then have "stepForward pEnd \<le> fold max cs c"
    by (rule fold_max_ge)
  ultimately have "stepForward pEnd \<le> s"
    by simp
  with p show ?thesis by blast
qed

text \<open>
  The invariant of the walk: every Finish-to-Start edge whose successor has dates has a
  predecessor with dates, and the successor starts at or after the working day that
  follows the predecessor's end.
\<close>

definition fsInvariant :: "Dependency list \<Rightarrow> (int \<rightharpoonup> int \<times> int) \<Rightarrow> bool" where
  "fsInvariant deps dates \<longleftrightarrow>
     (\<forall>d \<in> set deps. relation_kind d = FS \<longrightarrow>
        (\<forall>sStart sEnd. dates (successor d) = Some (sStart, sEnd) \<longrightarrow>
           (\<exists>pStart pEnd. dates (predecessor d) = Some (pStart, pEnd)
                            \<and> stepForward pEnd \<le> sStart)))"

lemma fsInvariant_step:
  assumes inv: "fsInvariant deps dates" and fresh: "dates (st_id t) = None"
    and sched: "scheduleTask epoch deps dates t = Inr se"
  shows "fsInvariant deps (dates(st_id t \<mapsto> se))"
  unfolding fsInvariant_def
proof (intro ballI impI allI)
  fix d sStart sEnd
  assume d: "d \<in> set deps" "relation_kind d = FS"
    and succ: "(dates(st_id t \<mapsto> se)) (successor d) = Some (sStart, sEnd)"
  have "\<exists>pStart pEnd. dates (predecessor d) = Some (pStart, pEnd) \<and> stepForward pEnd \<le> sStart"
  proof (cases "successor d = st_id t")
    case True
    with succ have "se = (sStart, sEnd)" by simp
    with sched have "scheduleTask epoch deps dates t = Inr (sStart, sEnd)" by simp
    from scheduleTask_FS[OF this d(1) True d(2)] show ?thesis .
  next
    case False
    with succ have "dates (successor d) = Some (sStart, sEnd)" by simp
    with inv d show ?thesis unfolding fsInvariant_def by blast
  qed
  then obtain pStart pEnd where p: "dates (predecessor d) = Some (pStart, pEnd)"
    "stepForward pEnd \<le> sStart" by blast
  with fresh have "predecessor d \<noteq> st_id t" by auto
  with p show "\<exists>pStart pEnd. (dates(st_id t \<mapsto> se)) (predecessor d) = Some (pStart, pEnd)
                               \<and> stepForward pEnd \<le> sStart"
    by simp
qed

lemma forwardSchedule_invariant:
  assumes "forwardSchedule epoch ts deps order dates = Inr dates'"
    and "distinct order" and "set order \<inter> dom dates = {}" and "fsInvariant deps dates"
  shows "fsInvariant deps dates' \<and> dom dates' = dom dates \<union> set order"
  using assms
proof (induction order arbitrary: dates)
  case Nil
  then show ?case by simp
next
  case (Cons i order)
  from Cons.prems(1) obtain t where t: "find (\<lambda>t. st_id t = i) ts = Some t"
    by (cases "find (\<lambda>t. st_id t = i) ts") auto
  then have id: "st_id t = i"
    by (auto dest: find_Some_mem)
  from Cons.prems(1) t obtain se where se: "scheduleTask epoch deps dates t = Inr se"
    by (cases "scheduleTask epoch deps dates t") auto
  with Cons.prems(1) t
  have run: "forwardSchedule epoch ts deps order (dates(i \<mapsto> se)) = Inr dates'"
    by simp
  from Cons.prems(3) have fresh: "dates (st_id t) = None"
    using id by auto
  have inv: "fsInvariant deps (dates(i \<mapsto> se))"
    using fsInvariant_step[OF Cons.prems(4) fresh se] id by simp
  have disj: "set order \<inter> dom (dates(i \<mapsto> se)) = {}"
    using Cons.prems(2,3) by auto
  from Cons.IH[OF run _ disj inv] Cons.prems(2)
  show ?case by auto
qed

lemma kahn_order:
  assumes "kahn deps placed remaining = Inr order" and "distinct (placed @ remaining)"
  shows "distinct order \<and> set order = set placed \<union> set remaining"
  using assms
proof (induction deps placed remaining rule: kahn.induct)
  case (1 deps placed)
  then show ?case by auto
next
  case (2 deps placed r rs)
  from "2.prems"(1) obtain i where i: "find (ready deps placed) (r # rs) = Some i"
    by (cases "find (ready deps placed) (r # rs)") auto
  have mem: "i \<in> set (r # rs)"
    using find_Some_mem[OF i] by blast
  from "2.prems"(1) i have run: "kahn deps (i # placed) (remove1 i (r # rs)) = Inr order"
    by simp
  from "2.prems"(2) have dr: "distinct (r # rs)" and dp: "distinct placed"
    and dj: "set placed \<inter> set (r # rs) = {}"
    by auto
  have "distinct ((i # placed) @ remove1 i (r # rs))"
    using dr dp dj mem by (auto simp: set_remove1_eq[OF dr])
  from "2.IH"[OF i run this] mem show ?case
    by (auto simp: set_remove1_eq[OF dr])
qed

lemma topologicalOrder_nodes:
  assumes "topologicalOrder ts deps = Inr order"
  shows "distinct order \<and> set order = st_id ` set ts"
  using kahn_order[of deps "[]" "sort (remdups (map st_id ts))" order] assms
  by (simp add: topologicalOrder_def)

lemma validate_known:
  assumes "validate ts deps = None" and "d \<in> set deps"
  shows "predecessor d \<in> st_id ` set ts" and "successor d \<in> st_id ` set ts"
  using assms by (auto simp: validate_def split: if_splits)

subsection \<open>Scheduling succeeds on every validated acyclic input\<close>

text \<open>An order in which every task comes after all of its predecessors.\<close>

fun predecessorsFirst :: "Dependency list \<Rightarrow> int list \<Rightarrow> int list \<Rightarrow> bool" where
  "predecessorsFirst deps placed [] = True"
| "predecessorsFirst deps placed (i # rest) =
     (ready deps placed i \<and> predecessorsFirst deps (i # placed) rest)"

lemma kahn_predecessorsFirst:
  assumes "kahn deps placed remaining = Inr order"
  shows "\<exists>rest. order = rev placed @ rest \<and> predecessorsFirst deps placed rest"
  using assms
proof (induction deps placed remaining rule: kahn.induct)
  case (1 deps placed)
  then show ?case by auto
next
  case (2 deps placed r rs)
  from "2.prems" obtain i where i: "find (ready deps placed) (r # rs) = Some i"
    by (cases "find (ready deps placed) (r # rs)") auto
  have rdy: "ready deps placed i"
    using find_Some_mem[OF i] by blast
  from "2.prems" i have "kahn deps (i # placed) (remove1 i (r # rs)) = Inr order"
    by simp
  from "2.IH"[OF i this] obtain rest where
    "order = rev (i # placed) @ rest" "predecessorsFirst deps (i # placed) rest"
    by blast
  with rdy have "order = rev placed @ (i # rest) \<and> predecessorsFirst deps placed (i # rest)"
    by simp
  then show ?case by blast
qed

lemma scheduleTask_succeeds:
  assumes "taskWorkingDays t = Inr n"
    and "\<And>d. d \<in> set deps \<Longrightarrow> successor d = st_id t \<Longrightarrow> predecessor d \<in> dom dates"
  shows "\<exists>se. scheduleTask epoch deps dates t = Inr se"
proof -
  have "None \<notin> set (map (lowerBound dates n) (filter (\<lambda>d. successor d = st_id t) deps))"
  proof
    assume "None \<in> set (map (lowerBound dates n) (filter (\<lambda>d. successor d = st_id t) deps))"
    then obtain d where d: "d \<in> set deps" "successor d = st_id t" "lowerBound dates n d = None"
      by auto
    from assms(2)[OF d(1,2)] d(3) show False
      by (auto simp: lowerBound_def)
  qed
  with assms(1) show ?thesis
    by (simp add: scheduleTask_def Let_def split: list.splits)
qed

lemma forwardSchedule_succeeds:
  assumes "predecessorsFirst deps placed order" and "set placed \<subseteq> dom dates"
    and "set order \<subseteq> st_id ` set ts"
    and "\<And>t. t \<in> set ts \<Longrightarrow> \<exists>n. taskWorkingDays t = Inr n"
  shows "\<exists>dates'. forwardSchedule epoch ts deps order dates = Inr dates'"
  using assms(1,2,3)
proof (induction order arbitrary: placed dates)
  case Nil
  then show ?case by simp
next
  case (Cons i order)
  from Cons.prems(3) have "\<exists>t \<in> set ts. st_id t = i" by auto
  then obtain t where t: "find (\<lambda>t. st_id t = i) ts = Some t"
    by (cases "find (\<lambda>t. st_id t = i) ts") (auto simp: find_None_iff)
  have tin: "t \<in> set ts" and id: "st_id t = i"
    using find_Some_mem[OF t] by auto
  from assms(4)[OF tin] obtain n where n: "taskWorkingDays t = Inr n" ..
  from Cons.prems(1) have rdy: "ready deps placed i"
    and rest: "predecessorsFirst deps (i # placed) order"
    by auto
  have "\<And>d. d \<in> set deps \<Longrightarrow> successor d = st_id t \<Longrightarrow> predecessor d \<in> dom dates"
    using rdy Cons.prems(2) id unfolding ready_def by blast
  from scheduleTask_succeeds[OF n this] obtain se where
    se: "scheduleTask epoch deps dates t = Inr se" by blast
  have dom: "set (i # placed) \<subseteq> dom (dates(i \<mapsto> se))"
    using Cons.prems(2) by auto
  have sub: "set order \<subseteq> st_id ` set ts"
    using Cons.prems(3) by simp
  from Cons.IH[OF rest dom sub] obtain dates' where
    "forwardSchedule epoch ts deps order (dates(i \<mapsto> se)) = Inr dates'"
    by blast
  with t se show ?case
    by simp
qed

lemma validate_workingDays:
  assumes "validate ts deps = None" and "t \<in> set ts"
  shows "\<exists>n. taskWorkingDays t = Inr n"
proof -
  from assms have "case resolved_ratio t of None \<Rightarrow> True | Some r \<Rightarrow> 0 < r"
    by (cases "resolved_ratio t") (auto simp: validate_def split: if_splits)
  then show ?thesis
    by (cases "resolved_ratio t") (auto simp: taskWorkingDays_def workingDaysNeeded_def)
qed

text \<open>
  Once validation has passed, a session fails only with \<open>CyclicDependency\<close>, raised by
  the topological order; otherwise it returns dates.
\<close>

lemma scheduleSession_outcome:
  assumes "validate ts deps = None"
  shows "(\<exists>remaining. scheduleSession epoch ts deps = Inl (CyclicDependency remaining))
         \<or> (\<exists>dates. scheduleSession epoch ts deps = Inr dates)"
proof (cases "ts = []")
  case True
  then show ?thesis by (simp add: scheduleSession_def)
next
  case False
  show ?thesis
  proof (cases "topologicalOrder ts deps")
    case (Inl e)
    have "\<exists>remaining. e = CyclicDependency remaining"
    proof -
      have "\<And>placed remaining. kahn deps placed remaining = Inl e
              \<Longrightarrow> \<exists>remaining. e = CyclicDependency remaining"
      proof -
        fix placed remaining
        show "kahn deps placed remaining = Inl e \<Longrightarrow> \<exists>remaining. e = CyclicDependency remaining"
          by (induction deps placed remaining rule: kahn.induct)
             (auto split: option.splits)
      qed
      with Inl show ?thesis unfolding topologicalOrder_def by blast
    qed
    with Inl False assms show ?thesis
      by (auto simp: scheduleSession_def)
  next
    case (Inr order)
    from kahn_predecessorsFirst[of deps "[]" _ order] Inr
    have pf: "predecessorsFirst deps [] order"
      by (auto simp: topologicalOrder_def)
    from topologicalOrder_nodes[OF Inr] have "set order \<subseteq> st_id ` set ts" by simp
    from forwardSchedule_succeeds[OF pf _ this validate_workingDays[OF assms], of Map.empty epoch]
    obtain dates where "forwardSchedule epoch ts deps order Map.empty = Inr dates"
      by auto
    with Inr False assms show ?thesis
      by (simp add: scheduleSession_def)
  qed
qed

definition scenarioA :: "SchedTask list" where
  "scenarioA =
     [\<lparr>st_id = 1, effort = 5, earliest_allowed_start = None, task_deadline = None,
       resolved_ratio = Some 1, is_milestone = False\<rparr>,
      \<lparr>st_id = 2, effort = 8, earliest_allowed_start = None, task_deadline = None,
       resolved_ratio = Some (4 / 5), is_milestone = False\<rparr>]"

definition scenarioA_deps :: "Dependency list" where
  "scenarioA_deps = [\<lparr>predecessor = 1, successor = 2, relation_kind = FS\<rparr>]"

text \<open>
  Scenario A of the specification, with the epoch Monday 2025-09-01 as day 0: T1 runs
  from day 0 to day 4 (Friday), T2 from day 7 (Monday) to day 18 (Friday 2025-09-19).
\<close>

lemma scenarioA_dates:
  "case scheduleSession 0 scenarioA scenarioA_deps of
     Inl e \<Rightarrow> False
   | Inr dates \<Rightarrow> dates 1 = Some (0, 4) \<and> dates 2 = Some (7, 18)"
  by code_simp

text \<open>
  Claim C6. In the schedule a session computes for a non-empty task set, every
  Finish-to-Start edge has dates at both ends, and the successor starts strictly after
  the predecessor's end, at or after the next working day.
\<close>

theorem fs_invariant:
  assumes "scheduleSession epoch ts deps = Inr dates" and "ts \<noteq> []"
    and "d \<in> set deps" and "relation_kind d = FS"
  shows "\<exists>pStart pEnd sStart sEnd.
           dates (predecessor d) = Some (pStart, pEnd)
           \<and> dates (successor d) = Some (sStart, sEnd)
           \<and> pEnd < sStart \<and> stepForward pEnd \<le> sStart"
proof -
  from assms(1,2) have valid: "validate ts deps = None"
    by (cases "validate ts deps") (auto simp: scheduleSession_def)
  with assms(1,2) obtain order where order: "topologicalOrder ts deps = Inr order"
    by (cases "topologicalOrder ts deps") (auto simp: scheduleSession_def)
  with assms(1,2) valid have run: "forwardSchedule epoch ts deps order Map.empty = Inr dates"
    by (simp add: scheduleSession_def)
  from topologicalOrder_nodes[OF order] have nodes: "distinct order" "set order = st_id ` set ts"
    by auto
  have "fsInvariant deps Map.empty"
    by (simp add: fsInvariant_def)
  from forwardSchedule_invariant[OF run nodes(1) _ this]
  have inv: "fsInvariant deps dates" and dom: "dom dates = set order"
    by auto
  from validate_known(2)[OF valid assms(3)] dom nodes(2)
  obtain sStart sEnd where s: "dates (successor d) = Some (sStart, sEnd)"
    by fastforce
  with inv assms(3,4) obtain pStart pEnd where
    p: "dates (predecessor d) = Some (pStart, pEnd)" "stepForward pEnd \<le> sStart"
    unfolding fsInvariant_def by blast
  from p(2) stepForward_gt[of pEnd] have "pEnd < sStart" by simp
  with s p show ?thesis by blast
qed

theorem fs_invariant_witness:
  "\<exists>dates. scheduleSession 0 scenarioA scenarioA_deps = Inr dates
            \<and> dates 1 = Some (0, 4) \<and> dates 2 = Some (7, 18)
            \<and> stepForward 4 \<le> 7"
proof -
  from scenarioA_dates obtain dates where
    run: "scheduleSession 0 scenarioA scenarioA_deps = Inr dates"
    and d1: "dates 1 = Some (0, 4)" and d2: "dates 2 = Some (7, 18)"
    by (cases "scheduleSession 0 scenarioA scenarioA_deps") auto
  have ne: "scenarioA \<noteq> []"
    by (simp add: scenarioA_def)
  have dep: "\<lparr>predecessor = 1, successor = 2, relation_kind = FS\<rparr> \<in> set scenarioA_deps"
    by (simp add: scenarioA_deps_def)
  from fs_invariant[OF run ne dep] d1 d2 have "stepForward 4 \<le> 7"
    by auto
  with run d1 d2 show ?thesis by blast
qed

section \<open>The schedule result of the engine\<close>

subsection \<open>Per-task results\<close>

text \<open>
  Modelled from the spec: the per-task part of the Schedule Result, missing from the
  sources: "Per task: computed start/end date, over-deadline flag, unassigned flag".
\<close>

record TaskSchedule =
  computed_start :: int
  computed_end :: int
  over_deadline :: bool
  unassigned :: bool

text \<open>
  Modelled from the spec: the Schedule Result, missing from the sources: the per-task
  results by task identity, "one or more critical-path sequences of task identities" and
  the "total project duration in calendar days".
\<close>

record ScheduleResult =
  task_schedules :: "(int \<times> TaskSchedule) list"
  critical_paths :: "int list list"
  total_duration_days :: int

text \<open>
  Modelled from the spec: the advisory flags of one task, missing from the sources: "if a
  task has a deadline and the computed \<open>end_date\<close> exceeds it, the task is marked
  over-deadline in the result (not silently clamped)"; "unassigned tasks (no resolved
  allocation ratio) are ... flagged unassigned in the result".
\<close>

definition taskSchedule :: "SchedTask \<Rightarrow> int \<times> int \<Rightarrow> TaskSchedule" where
  "taskSchedule t se =
     \<lparr>computed_start = fst se, computed_end = snd se,
      over_deadline = (case task_deadline t of None \<Rightarrow> False | Some dl \<Rightarrow> dl < snd se),
      unassigned = (resolved_ratio t = None)\<rparr>"

text \<open>
  Modelled from the spec: the per-task results of a request, missing from the sources:
  one entry for each task that has computed dates.
\<close>

definition taskSchedules ::
  "(int \<rightharpoonup> int \<times> int) \<Rightarrow> SchedTask list \<Rightarrow> (int \<times> TaskSchedule) list" where
  "taskSchedules dates ts =
     List.map_filter
       (\<lambda>t. case dates (st_id t) of
              None \<Rightarrow> None
            | Some se \<Rightarrow> Some (st_id t, taskSchedule t se))
       ts"

subsection \<open>Critical path extractor\<close>

text \<open>
  Modelled from the spec: the latest end date of a schedule, missing from the sources:
  "the maximum \<open>end_date\<close> among all tasks".
\<close>

definition latestEnd :: "(int \<times> TaskSchedule) list \<Rightarrow> int option" where
  "latestEnd entries =
     (case map (\<lambda>(i, s). computed_end s) entries of
        [] \<Rightarrow> None
      | e # es \<Rightarrow> Some (fold max es e))"

text \<open>
  Modelled from the spec: the total duration, missing from the sources: "the maximum
  \<open>end_date\<close> among all tasks, minus the schedule epoch, expressed as elapsed calendar
  days", and 0 for the empty task set.
\<close>

definition totalDuration :: "int \<Rightarrow> (int \<times> TaskSchedule) list \<Rightarrow> int" where
  "totalDuration epoch entries =
     (case latestEnd entries of None \<Rightarrow> 0 | Some e \<Rightarrow> e - epoch)"

text \<open>
  Modelled from the spec: the terminal tasks, missing from the sources: "every task whose
  \<open>end_date\<close> equals this maximum", in ascending order of identity.
\<close>

definition terminalTasks :: "(int \<times> TaskSchedule) list \<Rightarrow> int list" where
  "terminalTasks entries =
     sort (remdups (map fst
       (filter (\<lambda>(i, s). Some (computed_end s) = latestEnd entries) entries)))"

text \<open>
  Modelled from the spec: the preference among equally binding predecessors, missing from
  the sources: "prefer the one with the later \<open>end_date\<close>, then the smaller task
  identity".
\<close>

definition preferred :: "(int \<rightharpoonup> int \<times> int) \<Rightarrow> int \<Rightarrow> int \<Rightarrow> int" where
  "preferred dates p best =
     (case dates p of
        None \<Rightarrow> best
      | Some (pStart, pEnd) \<Rightarrow>
          (case dates best of
             None \<Rightarrow> p
           | Some (bStart, bEnd) \<Rightarrow>
               if bEnd < pEnd \<or> (pEnd = bEnd \<and> p < best) then p else best))"

text \<open>
  Modelled from the spec: the choice of one step of the backward walk, missing from the
  sources: among the incoming edges of a task, "the predecessor whose contribution to
  the successor's start/end bound was actually binding", that is, whose lower bound is
  the computed start of the task; \<open>None\<close> at a root task or "when no predecessor is
  found to be binding".
\<close>

definition bindingPredecessor ::
  "SchedTask list \<Rightarrow> Dependency list \<Rightarrow> (int \<rightharpoonup> int \<times> int) \<Rightarrow> int \<Rightarrow> int option" where
  "bindingPredecessor ts deps dates i =
     (case dates i of
        None \<Rightarrow> None
      | Some (iStart, iEnd) \<Rightarrow>
          (case find (\<lambda>t. st_id t = i) ts of
             None \<Rightarrow> None
           | Some t \<Rightarrow>
               (case taskWorkingDays t of
                  Inl e \<Rightarrow> None
                | Inr n \<Rightarrow>
                    (case map predecessor
                            (filter (\<lambda>d. successor d = i \<and> lowerBound dates n d = Some iStart)
                               deps) of
                       [] \<Rightarrow> None
                     | c # cs \<Rightarrow> Some (fold (preferred dates) cs c)))))"

text \<open>
  Modelled from the spec: the backward walk from one terminal task, missing from the
  sources: "walk backward along incoming edges ...; the resulting sequence, reversed, is
  the critical path". The path is built root first. The walk is bounded by a number of
  steps; \<open>None\<close> when the bound is used up.
\<close>

fun criticalWalk :: "nat \<Rightarrow> (int \<Rightarrow> int option) \<Rightarrow> int \<Rightarrow> int list option" where
  "criticalWalk 0 pick i = None"
| "criticalWalk (Suc k) pick i =
     (case pick i of
        None \<Rightarrow> Some [i]
      | Some p \<Rightarrow> map_option (\<lambda>path. path @ [i]) (criticalWalk k pick p))"

text \<open>
  Modelled from the spec: the Critical Path Extractor, missing from the sources: "if
  multiple equally-long terminal tasks exist, the engine reports one critical path per
  terminal task in the result, each independently derived". Each walk may take as many
  steps as there are tasks.
\<close>

definition extractCriticalPaths ::
  "SchedTask list \<Rightarrow> Dependency list \<Rightarrow> (int \<rightharpoonup> int \<times> int) \<Rightarrow> int list \<Rightarrow> int list list option" where
  "extractCriticalPaths ts deps dates terminals =
     those (map (criticalWalk (length ts) (bindingPredecessor ts deps dates)) terminals)"

subsection \<open>The whole session\<close>

text \<open>
  Modelled from the spec: the Schedule Session from \<open>Idle\<close> to \<open>Done\<close> or \<open>Failed\<close>,
  missing from the sources: validation and scheduling as above, then \<open>Extracting\<close>, and
  "\<open>Done\<close> yields the Schedule Result".
\<close>

definition runSession ::
  "int \<Rightarrow> SchedTask list \<Rightarrow> Dependency list \<Rightarrow> engine_error + ScheduleResult" where
  "runSession epoch ts deps =
     (case scheduleSession epoch ts deps of
        Inl e \<Rightarrow> Inl e
      | Inr dates \<Rightarrow>
          (case extractCriticalPaths ts deps dates (terminalTasks (taskSchedules dates ts)) of
             None \<Rightarrow> Inl InvalidInput
           | Some paths \<Rightarrow>
               Inr \<lparr>task_schedules = taskSchedules dates ts,
                    critical_paths = paths,
                    total_duration_days = totalDuration epoch (taskSchedules dates ts)\<rparr>))"

text \<open>
  Three tasks from the epoch Monday, day 0: task 1 (5 person-days, deadline day 3,
  unassigned), task 2 (5 person-days, Finish-to-Start on task 1) and the unconnected task
  3 (5 person-days at ratio 1/2, so 10 working days). Tasks 2 and 3 both end on day 11.
\<close>

definition tiedTasks :: "SchedTask list" where
  "tiedTasks =
     [\<lparr>st_id = 1, effort = 5, earliest_allowed_start = None, task_deadline = Some 3,
       resolved_ratio = None, is_milestone = False\<rparr>,
      \<lparr>st_id = 2, effort = 5, earliest_allowed_start = None, task_deadline = Some 20,
       resolved_ratio = Some 1, is_milestone = False\<rparr>,
      \<lparr>st_id = 3, effort = 5, earliest_allowed_start = None, task_deadline = None,
       resolved_ratio = Some (1 / 2), is_milestone = False\<rparr>]"

definition tiedDeps :: "Dependency list" where
  "tiedDeps = [\<lparr>predecessor = 1, successor = 2, relation_kind = FS\<rparr>]"

lemma tiedTasks_result:
  "case runSession 0 tiedTasks tiedDeps of
     Inl e \<Rightarrow> False
   | Inr r \<Rightarrow>
       task_schedules r
         = [(1, \<lparr>computed_start = 0, computed_end = 4, over_deadline = True, unassigned = True\<rparr>),
            (2, \<lparr>computed_start = 7, computed_end = 11, over_deadline = False,
                 unassigned = False\<rparr>),
            (3, \<lparr>computed_start = 0, computed_end = 11, over_deadline = False,
                 unassigned = False\<rparr>)]
       \<and> critical_paths r = [[1, 2], [3]]
       \<and> total_duration_days r = 11"
  by code_simp

subsection \<open>Every task has an entry\<close>

lemma scheduleSession_dom:
  assumes "scheduleSession epoch ts deps = Inr dates"
  shows "dom dates = st_id ` set ts"
proof (cases "ts = []")
  case True
  with assms show ?thesis by (auto simp: scheduleSession_def)
next
  case False
  with assms have valid: "validate ts deps = None"
    by (cases "validate ts deps") (auto simp: scheduleSession_def)
  with assms False obtain order where order: "topologicalOrder ts deps = Inr order"
    by (cases "topologicalOrder ts deps") (auto simp: scheduleSession_def)
  with assms False valid have run: "forwardSchedule epoch ts deps order Map.empty = Inr dates"
    by (simp add: scheduleSession_def)
  from topologicalOrder_nodes[OF order] have nodes: "distinct order" "set order = st_id ` set ts"
    by auto
  have "fsInvariant deps Map.empty"
    by (simp add: fsInvariant_def)
  from forwardSchedule_invariant[OF run nodes(1) _ this] nodes(2) show ?thesis
    by auto
qed

lemma taskSchedules_all:
  assumes "\<forall>t \<in> set ts. dates (st_id t) \<noteq> None"
  shows "taskSchedules dates ts = map (\<lambda>t. (st_id t, taskSchedule t (the (dates (st_id t))))) ts"
  using assms
  by (induction ts) (auto simp: taskSchedules_def List.map_filter_simps)

lemma runSession_parts:
  assumes "runSession epoch ts deps = Inr r"
  obtains dates where "scheduleSession epoch ts deps = Inr dates"
    and "task_schedules r = taskSchedules dates ts"
    and "extractCriticalPaths ts deps dates (terminalTasks (taskSchedules dates ts))
           = Some (critical_paths r)"
    and "total_duration_days r = totalDuration epoch (taskSchedules dates ts)"
proof -
  from assms obtain dates where d: "scheduleSession epoch ts deps = Inr dates"
    by (cases "scheduleSession epoch ts deps") (auto simp: runSession_def)
  with assms obtain paths where
    p: "extractCriticalPaths ts deps dates (terminalTasks (taskSchedules dates ts)) = Some paths"
    by (cases "extractCriticalPaths ts deps dates (terminalTasks (taskSchedules dates ts))")
       (auto simp: runSession_def)
  with assms d have "r = \<lparr>task_schedules = taskSchedules dates ts, critical_paths = paths,
                           total_duration_days = totalDuration epoch (taskSchedules dates ts)\<rparr>"
    by (simp add: runSession_def)
  with d p that show thesis by simp
qed

text \<open>
  Claim C4. The result of a successful session has one entry for each task; the entry of
  a task carries the computed start and end dates of the task, an over-deadline flag
  that is set exactly when the task has a deadline and the computed end date exceeds it,
  and an unassigned flag that is set exactly when the task has no resolved allocation
  ratio.
\<close>

theorem result_carries_flags:
  assumes "runSession epoch ts deps = Inr r" and "t \<in> set ts"
  shows "\<exists>dates s e.
           scheduleSession epoch ts deps = Inr dates
           \<and> dates (st_id t) = Some (s, e)
           \<and> (st_id t,
               \<lparr>computed_start = s, computed_end = e,
                over_deadline = (\<exists>dl. task_deadline t = Some dl \<and> dl < e),
                unassigned = (resolved_ratio t = None)\<rparr>) \<in> set (task_schedules r)
           \<and> length (task_schedules r) = length ts"
proof -
  from assms(1) obtain dates where d: "scheduleSession epoch ts deps = Inr dates"
    and ts: "task_schedules r = taskSchedules dates ts"
    by (rule runSession_parts)
  have all: "\<forall>t \<in> set ts. dates (st_id t) \<noteq> None"
  proof
    fix u assume "u \<in> set ts"
    then have "st_id u \<in> dom dates"
      unfolding scheduleSession_dom[OF d] by (rule imageI)
    then show "dates (st_id u) \<noteq> None" by blast
  qed
  with assms(2) obtain s e where se: "dates (st_id t) = Some (s, e)"
    by fastforce
  have entry: "taskSchedule t (s, e)
                 = \<lparr>computed_start = s, computed_end = e,
                    over_deadline = (\<exists>dl. task_deadline t = Some dl \<and> dl < e),
                    unassigned = (resolved_ratio t = None)\<rparr>"
    by (cases "task_deadline t") (simp_all add: taskSchedule_def)
  from assms(2) se have "(st_id t, taskSchedule t (s, e)) \<in> set (taskSchedules dates ts)"
    unfolding taskSchedules_all[OF all] by force
  then have "(st_id t,
              \<lparr>computed_start = s, computed_end = e,
               over_deadline = (\<exists>dl. task_deadline t = Some dl \<and> dl < e),
               unassigned = (resolved_ratio t = None)\<rparr>) \<in> set (taskSchedules dates ts)"
    unfolding entry .
  moreover have "length (taskSchedules dates ts) = length ts"
    unfolding taskSchedules_all[OF all] by simp
  ultimately show ?thesis
    using d se ts by auto
qed

theorem result_carries_flags_witness:
  "\<exists>r. runSession 0 tiedTasks tiedDeps = Inr r
        \<and> (1, \<lparr>computed_start = 0, computed_end = 4, over_deadline = True, unassigned = True\<rparr>)
            \<in> set (task_schedules r)
        \<and> length (task_schedules r) = 3"
proof -
  from tiedTasks_result obtain r where
    run: "runSession 0 tiedTasks tiedDeps = Inr r"
    and entries: "(1, \<lparr>computed_start = 0, computed_end = 4, over_deadline = True,
                       unassigned = True\<rparr>) \<in> set (task_schedules r)"
    by (cases "runSession 0 tiedTasks tiedDeps") auto
  have t: "\<lparr>st_id = 1, effort = 5, earliest_allowed_start = None, task_deadline = Some 3,
            resolved_ratio = None, is_milestone = False\<rparr> \<in> set tiedTasks"
    by (simp add: tiedTasks_def)
  from result_carries_flags[OF run t] have "length (task_schedules r) = length tiedTasks"
    by blast
  then have "length (task_schedules r) = 3"
    by (simp add: tiedTasks_def)
  with run entries show ?thesis by blast
qed

subsection \<open>One critical path for each terminal task\<close>

text \<open>A sequence of task identities in which each task is a predecessor of the next.\<close>

fun edgeChain :: "Dependency list \<Rightarrow> int list \<Rightarrow> bool" where
  "edgeChain deps [] = True"
| "edgeChain deps [x] = True"
| "edgeChain deps (x # y # rest) =
     ((\<exists>d \<in> set deps. predecessor d = x \<and> successor d = y) \<and> edgeChain deps (y # rest))"

lemma edgeChain_snoc:
  assumes "edgeChain deps path" and "path \<noteq> []"
    and "\<exists>d \<in> set deps. predecessor d = last path \<and> successor d = i"
  shows "edgeChain deps (path @ [i])"
  using assms
  by (induction deps path rule: edgeChain.induct) auto

lemma fold_preferred_mem: "fold (preferred dates) cs c \<in> set (c # cs)"
proof (induction cs arbitrary: c)
  case Nil
  then show ?case by simp
next
  case (Cons a cs)
  have "preferred dates a c = a \<or> preferred dates a c = c"
    by (auto simp: preferred_def split: option.splits)
  with Cons[of "preferred dates a c"] show ?case by auto
qed

lemma bindingPredecessor_edge:
  assumes "bindingPredecessor ts deps dates i = Some p"
  shows "\<exists>d \<in> set deps. predecessor d = p \<and> successor d = i"
proof -
  from assms obtain iStart n c cs where
    cands: "map predecessor
              (filter (\<lambda>d. successor d = i \<and> lowerBound dates n d = Some iStart) deps) = c # cs"
    and p: "p = fold (preferred dates) cs c"
    by (auto simp: bindingPredecessor_def split: option.splits sum.splits list.splits)
  from p fold_preferred_mem[of dates cs c] have "p \<in> set (c # cs)" by simp
  with cands have
    "p \<in> set (map predecessor
                (filter (\<lambda>d. successor d = i \<and> lowerBound dates n d = Some iStart) deps))"
    by (simp only:)
  then show ?thesis by auto
qed

lemma criticalWalk_path:
  assumes "\<And>i p. pick i = Some p \<Longrightarrow> \<exists>d \<in> set deps. predecessor d = p \<and> successor d = i"
    and "criticalWalk k pick i = Some path"
  shows "path \<noteq> [] \<and> last path = i \<and> edgeChain deps path"
  using assms(2)
proof (induction k arbitrary: i path)
  case 0
  then show ?case by simp
next
  case (Suc k)
  show ?case
  proof (cases "pick i")
    case None
    with Suc.prems show ?thesis by auto
  next
    case (Some p)
    with Suc.prems obtain before where
      before: "criticalWalk k pick p = Some before" and path: "path = before @ [i]"
      by auto
    from Suc.IH[OF before] have ih: "before \<noteq> []" "last before = p" "edgeChain deps before"
      by auto
    from assms(1)[OF Some] ih(2) have
      "\<exists>d \<in> set deps. predecessor d = last before \<and> successor d = i"
      by simp
    from edgeChain_snoc[OF ih(3) ih(1) this] path show ?thesis
      by simp
  qed
qed

lemma predecessor_before:
  assumes "predecessorsFirst deps placed rest" and "rest = pre @ i # post"
    and "d \<in> set deps" and "successor d = i"
  shows "predecessor d \<in> set placed \<union> set pre"
  using assms(1,2)
proof (induction rest arbitrary: placed pre)
  case Nil
  then show ?case by simp
next
  case (Cons j rest)
  show ?case
  proof (cases pre)
    case Nil
    with Cons.prems have "ready deps placed i" by simp
    with assms(3,4) Nil show ?thesis
      unfolding ready_def by blast
  next
    case (Cons j' pre')
    with Cons.prems have "predecessorsFirst deps (j # placed) rest" "rest = pre' @ i # post"
      and j: "j' = j"
      by auto
    from Cons.IH[OF this(1,2)] Cons j show ?thesis
      by auto
  qed
qed

text \<open>
  On an order that puts predecessors first, a walk that starts at the task with \<open>length
  pre\<close> tasks before it needs at most \<open>length pre + 1\<close> steps.
\<close>

lemma criticalWalk_total:
  assumes edge: "\<And>i p. pick i = Some p \<Longrightarrow> \<exists>d \<in> set deps. predecessor d = p \<and> successor d = i"
    and first: "predecessorsFirst deps [] order"
  shows "order = pre @ i # post \<Longrightarrow> length pre < k \<Longrightarrow> \<exists>path. criticalWalk k pick i = Some path"
proof (induction k arbitrary: pre i post)
  case 0
  then show ?case by simp
next
  case (Suc k)
  show ?case
  proof (cases "pick i")
    case None
    then show ?thesis by simp
  next
    case (Some p)
    from edge[OF Some] obtain d where d: "d \<in> set deps" "predecessor d = p" "successor d = i"
      by blast
    from predecessor_before[OF first Suc.prems(1) d(1,3)] d(2) have "p \<in> set pre"
      by simp
    then obtain pre1 post1 where split: "pre = pre1 @ p # post1"
      by (auto dest: split_list)
    with Suc.prems have "order = pre1 @ p # (post1 @ i # post)" "length pre1 < k"
      by auto
    from Suc.IH[OF this] obtain before where "criticalWalk k pick p = Some before" ..
    with Some show ?thesis by simp
  qed
qed

lemma those_map_Some:
  assumes "\<forall>x \<in> set xs. \<exists>y. f x = Some y"
  shows "\<exists>ys. those (map f xs) = Some ys"
  using assms by (induction xs) auto

lemma those_map_all2:
  assumes "those (map f xs) = Some ys"
  shows "list_all2 (\<lambda>x y. f x = Some y) xs ys"
  using assms
  by (induction xs arbitrary: ys) (auto split: option.splits)

lemma terminalTasks_known:
  "set (terminalTasks (taskSchedules dates ts)) \<subseteq> st_id ` set ts"
  by (auto simp: terminalTasks_def taskSchedules_def List.map_filter_def split: option.splits)

text \<open>Once scheduling has succeeded, extraction cannot fail.\<close>

lemma runSession_succeeds:
  assumes "scheduleSession epoch ts deps = Inr dates"
  shows "\<exists>r. runSession epoch ts deps = Inr r"
proof -
  let ?pick = "bindingPredecessor ts deps dates"
  let ?terminals = "terminalTasks (taskSchedules dates ts)"
  have "\<forall>i \<in> set ?terminals. \<exists>path. criticalWalk (length ts) ?pick i = Some path"
  proof
    fix i assume i: "i \<in> set ?terminals"
    with terminalTasks_known[of dates ts] have known: "i \<in> st_id ` set ts" by blast
    then have ne: "ts \<noteq> []" by auto
    with assms have valid: "validate ts deps = None"
      by (cases "validate ts deps") (auto simp: scheduleSession_def)
    with assms ne obtain order where order: "topologicalOrder ts deps = Inr order"
      by (cases "topologicalOrder ts deps") (auto simp: scheduleSession_def)
    from topologicalOrder_nodes[OF order] have nodes: "distinct order"
      "set order = st_id ` set ts" by auto
    from kahn_predecessorsFirst[of deps "[]" _ order] order
    have first: "predecessorsFirst deps [] order"
      by (auto simp: topologicalOrder_def)
    from known nodes(2) have "i \<in> set order" by simp
    then obtain pre post where split: "order = pre @ i # post"
      by (blast dest: split_list)
    have "length order = card (st_id ` set ts)"
      using distinct_card[OF nodes(1)] nodes(2) by simp
    also have "\<dots> \<le> length ts"
      using card_image_le[of "set ts" st_id] card_length[of ts] by simp
    finally have len: "length pre < length ts"
      using split by simp
    show "\<exists>path. criticalWalk (length ts) ?pick i = Some path"
      by (rule criticalWalk_total[where pick = ?pick and deps = deps, OF _ first split len])
         (rule bindingPredecessor_edge)
  qed
  from those_map_Some[OF this] obtain paths where
    "extractCriticalPaths ts deps dates ?terminals = Some paths"
    unfolding extractCriticalPaths_def by blast
  with assms show ?thesis
    by (simp add: runSession_def)
qed

text \<open>
  Claim C5. The result of a successful session holds one critical path for each terminal
  task, that is, for each task whose computed end date is the latest: the paths end at
  the terminal tasks, taken in ascending order of identity without repetition, so with
  several tasks tied for the latest end date there are several paths. Each path is a
  non-empty sequence of task identities in which every task is a predecessor of the
  next, and it is the backward walk from its own terminal task alone.
\<close>

theorem critical_path_per_terminal_task:
  assumes "runSession epoch ts deps = Inr r"
  shows "map last (critical_paths r) = terminalTasks (task_schedules r)
         \<and> distinct (terminalTasks (task_schedules r))
         \<and> length (critical_paths r) = length (terminalTasks (task_schedules r))
         \<and> (\<forall>path \<in> set (critical_paths r). path \<noteq> [] \<and> edgeChain deps path)
         \<and> (\<exists>dates. scheduleSession epoch ts deps = Inr dates
               \<and> (\<forall>path \<in> set (critical_paths r).
                     criticalWalk (length ts) (bindingPredecessor ts deps dates) (last path)
                       = Some path))"
proof -
  from assms obtain dates where d: "scheduleSession epoch ts deps = Inr dates"
    and entries: "task_schedules r = taskSchedules dates ts"
    and paths: "extractCriticalPaths ts deps dates (terminalTasks (taskSchedules dates ts))
                  = Some (critical_paths r)"
    by (rule runSession_parts)
  let ?pick = "bindingPredecessor ts deps dates"
  let ?terminals = "terminalTasks (task_schedules r)"
  from paths entries have
    all2: "list_all2 (\<lambda>i path. criticalWalk (length ts) ?pick i = Some path)
             ?terminals (critical_paths r)"
    unfolding extractCriticalPaths_def by (auto dest: those_map_all2)
  have walk: "\<And>i path. criticalWalk (length ts) ?pick i = Some path
                \<Longrightarrow> path \<noteq> [] \<and> last path = i \<and> edgeChain deps path"
    by (rule criticalWalk_path[of ?pick deps]) (auto dest: bindingPredecessor_edge)
  from all2 have ends: "list_all2 (\<lambda>i path. last path = i) ?terminals (critical_paths r)"
    by (rule list_all2_mono) (use walk in blast)
  then have last: "map last (critical_paths r) = ?terminals"
    by (induction rule: list_all2_induct) auto
  have dist: "distinct ?terminals"
    by (simp add: terminalTasks_def)
  from all2 have len: "length (critical_paths r) = length ?terminals"
    by (simp add: list_all2_lengthD)
  have shape: "\<forall>path \<in> set (critical_paths r). path \<noteq> [] \<and> edgeChain deps path"
  proof
    fix path assume "path \<in> set (critical_paths r)"
    with all2 obtain i where "criticalWalk (length ts) ?pick i = Some path"
      by (auto simp: list_all2_conv_all_nth in_set_conv_nth)
    with walk show "path \<noteq> [] \<and> edgeChain deps path" by blast
  qed
  have own: "\<forall>path \<in> set (critical_paths r).
               criticalWalk (length ts) ?pick (last path) = Some path"
  proof
    fix path assume "path \<in> set (critical_paths r)"
    with all2 obtain i where i: "criticalWalk (length ts) ?pick i = Some path"
      by (auto simp: list_all2_conv_all_nth in_set_conv_nth)
    with walk have "last path = i" by blast
    with i show "criticalWalk (length ts) ?pick (last path) = Some path" by simp
  qed
  from last dist len shape d own show ?thesis by blast
qed

theorem critical_path_per_terminal_task_witness:
  "\<exists>r. runSession 0 tiedTasks tiedDeps = Inr r
        \<and> critical_paths r = [[1, 2], [3]]
        \<and> terminalTasks (task_schedules r) = [2, 3]"
proof -
  from tiedTasks_result obtain r where
    run: "runSession 0 tiedTasks tiedDeps = Inr r"
    and paths: "critical_paths r = [[1, 2], [3]]"
    by (cases "runSession 0 tiedTasks tiedDeps") auto
  from critical_path_per_terminal_task[OF run] paths
  have "terminalTasks (task_schedules r) = [2, 3]"
    by auto
  with run paths show ?thesis by blast
qed

end
